theory Spec2Isabelle
  imports Main
begin

section \<open>Data model: RDF terms, triples and the graph store\<close>

text \<open>
  The reasoning engine of \<^verbatim>\<open>src/ontology/graph_interrogator.py\<close> works on an rdflib
  graph. An RDF term is a URI reference, a blank node or a literal; a literal carries its
  lexical form, an optional language tag and an optional datatype URI, and two literals
  are equal when all three agree. Python strings are kept as \<^typ>\<open>string\<close> (the UTF-8
  bytes of the text): equality, substring search and splitting at an ASCII character
  agree with Python's on code points.
\<close>

datatype node =
    URIRef string
  | BNode string
  | Literal string "string option" "string option"

type_synonym triple = "node \<times> node \<times> node"

text \<open>
  The store is the list of its triples in iteration order; a pattern query enumerates
  the matching triples in that order. rdflib promises no particular order, and the
  theorems below hold for every list.
\<close>

type_synonym graph = "triple list"

fun is_URIRef :: "node \<Rightarrow> bool" where
  "is_URIRef (URIRef u) = True"
| "is_URIRef (BNode b) = False"
| "is_URIRef (Literal l lang dt) = False"

fun is_Literal :: "node \<Rightarrow> bool" where
  "is_Literal (URIRef u) = False"
| "is_Literal (BNode b) = False"
| "is_Literal (Literal l lang dt) = True"

text \<open>\<^verbatim>\<open>str(node)\<close>: the URI, the blank node identifier or the lexical form.\<close>

fun str_of :: "node \<Rightarrow> string" where
  "str_of (URIRef u) = u"
| "str_of (BNode b) = b"
| "str_of (Literal l lang dt) = l"

definition RDFS_label :: node where
  "RDFS_label = URIRef ''http://www.w3.org/2000/01/rdf-schema#label''"

definition RDF_type :: node where
  "RDF_type = URIRef ''http://www.w3.org/1999/02/22-rdf-syntax-ns#type''"

text \<open>\<^verbatim>\<open>graph.predicate_objects(subject=n)\<close> and \<^verbatim>\<open>graph.subject_predicates(object=n)\<close>.\<close>

definition predicate_objects :: "graph \<Rightarrow> node \<Rightarrow> (node \<times> node) list" where
  "predicate_objects g n = map (\<lambda>(s, p, o'). (p, o')) (filter (\<lambda>(s, p, o'). s = n) g)"

definition subject_predicates :: "graph \<Rightarrow> node \<Rightarrow> (node \<times> node) list" where
  "subject_predicates g n = map (\<lambda>(s, p, o'). (s, p)) (filter (\<lambda>(s, p, o'). o' = n) g)"

text \<open>\<^verbatim>\<open>graph.triples((n, None, None))\<close> and \<^verbatim>\<open>graph.triples((None, p, None))\<close>.\<close>

definition triples_from :: "graph \<Rightarrow> node \<Rightarrow> triple list" where
  "triples_from g n = filter (\<lambda>(s, p, o'). s = n) g"

definition triples_with_predicate :: "graph \<Rightarrow> node \<Rightarrow> triple list" where
  "triples_with_predicate g q = filter (\<lambda>(s, p, o'). p = q) g"

text \<open>
  \<^verbatim>\<open>graph.value(predicate=p, object=o)\<close> and \<^verbatim>\<open>graph.value(subject=s, predicate=p)\<close>:
  the first match in iteration order, \<^verbatim>\<open>None\<close> when nothing matches (the default
  \<^verbatim>\<open>any=True\<close> makes no uniqueness check).
\<close>

definition value_subject :: "graph \<Rightarrow> node \<Rightarrow> node \<Rightarrow> node option" where
  "value_subject g q n =
     (case filter (\<lambda>(s, p, o'). p = q \<and> o' = n) g of
        [] \<Rightarrow> None
      | (s, p, o') # rest \<Rightarrow> Some s)"

definition value_object :: "graph \<Rightarrow> node \<Rightarrow> node \<Rightarrow> node option" where
  "value_object g n q =
     (case filter (\<lambda>(s, p, o'). s = n \<and> p = q) g of
        [] \<Rightarrow> None
      | (s, p, o') # rest \<Rightarrow> Some o')"

section \<open>The path search\<close>

text \<open>
  \<^verbatim>\<open>_find_shortest_path\<close> keeps a queue of pairs (node, path that reached it) and the
  set \<^verbatim>\<open>visited\<close>. Each of its two inner \<^verbatim>\<open>for\<close> loops either returns the finished path
  from inside the loop or falls through with the queue and the visited set updated.
\<close>

type_synonym frontier = "(node \<times> triple list) list \<times> node set"

datatype scan = Return "triple list" | Continue frontier

text \<open>Phase 1: the rows \<open>(p, o)\<close> of the triples leaving \<open>current_node\<close>.\<close>

fun explore_out ::
  "node \<Rightarrow> triple list \<Rightarrow> node \<Rightarrow> (node \<times> node) list \<Rightarrow> frontier \<Rightarrow> scan" where
  "explore_out current_node path end_node [] (queue, visited) = Continue (queue, visited)"
| "explore_out current_node path end_node ((p, o') # rows) (queue, visited) =
     (if is_URIRef o' \<and> o' \<notin> visited then
        (let new_path = path @ [(current_node, p, o')] in
         if o' = end_node then Return new_path
         else explore_out current_node path end_node rows
                (queue @ [(o', new_path)], insert o' visited))
      else explore_out current_node path end_node rows (queue, visited))"

text \<open>Phase 2: the rows \<open>(s, p)\<close> of the triples arriving at \<open>current_node\<close>.\<close>

fun explore_in ::
  "node \<Rightarrow> triple list \<Rightarrow> node \<Rightarrow> (node \<times> node) list \<Rightarrow> frontier \<Rightarrow> scan" where
  "explore_in current_node path end_node [] (queue, visited) = Continue (queue, visited)"
| "explore_in current_node path end_node ((s, p) # rows) (queue, visited) =
     (if is_URIRef s \<and> s \<notin> visited then
        (let new_path = path @ [(s, p, current_node)] in
         if s = end_node then Return new_path
         else explore_in current_node path end_node rows
                (queue @ [(s, new_path)], insert s visited))
      else explore_in current_node path end_node rows (queue, visited))"

text \<open>The nodes a store mentions as subject or object.\<close>

definition graph_nodes :: "graph \<Rightarrow> node set" where
  "graph_nodes g = (\<lambda>(s, p, o'). s) ` set g \<union> (\<lambda>(s, p, o'). o') ` set g"

text \<open>
  What decreases in each round of the \<^verbatim>\<open>while queue\<close> loop: a round removes one queue
  entry, and a node it enqueues leaves the unvisited nodes of the store.
\<close>

definition search_measure :: "graph \<Rightarrow> frontier \<Rightarrow> nat" where
  "search_measure g fr = 2 * card (graph_nodes g - snd fr) + length (fst fr)"

lemma finite_graph_nodes: "finite (graph_nodes g)"
  by (simp add: graph_nodes_def)

lemma predicate_objects_nodes:
  "(p, o') \<in> set (predicate_objects g n) \<Longrightarrow> o' \<in> graph_nodes g"
  by (force simp: predicate_objects_def graph_nodes_def)

lemma subject_predicates_nodes:
  "(s, p) \<in> set (subject_predicates g n) \<Longrightarrow> s \<in> graph_nodes g"
  by (force simp: subject_predicates_def graph_nodes_def)

lemma card_diff_insert_fresh:
  assumes "x \<in> N" "x \<notin> V" "finite N"
  shows "Suc (card (N - insert x V)) = card (N - V)"
proof -
  have eq: "N - insert x V = (N - V) - {x}" by auto
  have "x \<in> N - V" using assms by simp
  moreover have "finite (N - V)" using assms by simp
  ultimately have "Suc (card ((N - V) - {x})) = card (N - V)"
    by (simp only: card_Suc_Diff1)
  then show ?thesis by (simp only: eq)
qed

lemma explore_out_measure:
  assumes "\<forall>(p, o') \<in> set rows. o' \<in> graph_nodes g"
    and "explore_out c path e rows fr = Continue fr'"
  shows "search_measure g fr' \<le> search_measure g fr"
  using assms
proof (induction rows arbitrary: fr)
  case Nil
  then show ?case by (cases fr) simp
next
  case (Cons row rows)
  obtain p o' where row: "row = (p, o')" by (cases row)
  obtain q v where fr: "fr = (q, v)" by (cases fr)
  have rows: "\<forall>(p, o') \<in> set rows. o' \<in> graph_nodes g"
    using Cons.prems(1) by simp
  have run: "explore_out c path e ((p, o') # rows) (q, v) = Continue fr'"
    using Cons.prems(2) row fr by simp
  show ?case
  proof (cases "is_URIRef o' \<and> o' \<notin> v")
    case True
    with run have rec:
      "explore_out c path e rows (q @ [(o', path @ [(c, p, o')])], insert o' v) = Continue fr'"
      by (simp add: Let_def split: if_splits)
    have "o' \<in> graph_nodes g" using Cons.prems(1) row by simp
    then have "Suc (card (graph_nodes g - insert o' v)) = card (graph_nodes g - v)"
      using True finite_graph_nodes by (intro card_diff_insert_fresh) simp_all
    then have "search_measure g (q @ [(o', path @ [(c, p, o')])], insert o' v)
        \<le> search_measure g fr"
      unfolding search_measure_def fr by simp
    moreover have "search_measure g fr'
        \<le> search_measure g (q @ [(o', path @ [(c, p, o')])], insert o' v)"
      using rows rec by (rule Cons.IH)
    ultimately show ?thesis by simp
  next
    case False
    with run have "explore_out c path e rows fr = Continue fr'"
      unfolding fr by (simp split: if_splits)
    with rows show ?thesis by (rule Cons.IH)
  qed
qed

lemma explore_in_measure:
  assumes "\<forall>(s, p) \<in> set rows. s \<in> graph_nodes g"
    and "explore_in c path e rows fr = Continue fr'"
  shows "search_measure g fr' \<le> search_measure g fr"
  using assms
proof (induction rows arbitrary: fr)
  case Nil
  then show ?case by (cases fr) simp
next
  case (Cons row rows)
  obtain s p where row: "row = (s, p)" by (cases row)
  obtain q v where fr: "fr = (q, v)" by (cases fr)
  have rows: "\<forall>(s, p) \<in> set rows. s \<in> graph_nodes g"
    using Cons.prems(1) by simp
  have run: "explore_in c path e ((s, p) # rows) (q, v) = Continue fr'"
    using Cons.prems(2) row fr by simp
  show ?case
  proof (cases "is_URIRef s \<and> s \<notin> v")
    case True
    with run have rec:
      "explore_in c path e rows (q @ [(s, path @ [(s, p, c)])], insert s v) = Continue fr'"
      by (simp add: Let_def split: if_splits)
    have "s \<in> graph_nodes g" using Cons.prems(1) row by simp
    then have "Suc (card (graph_nodes g - insert s v)) = card (graph_nodes g - v)"
      using True finite_graph_nodes by (intro card_diff_insert_fresh) simp_all
    then have "search_measure g (q @ [(s, path @ [(s, p, c)])], insert s v)
        \<le> search_measure g fr"
      unfolding search_measure_def fr by simp
    moreover have "search_measure g fr'
        \<le> search_measure g (q @ [(s, path @ [(s, p, c)])], insert s v)"
      using rows rec by (rule Cons.IH)
    ultimately show ?thesis by simp
  next
    case False
    with run have "explore_in c path e rows fr = Continue fr'"
      unfolding fr by (simp split: if_splits)
    with rows show ?thesis by (rule Cons.IH)
  qed
qed

text \<open>
  The \<^verbatim>\<open>while queue\<close> loop: pop the oldest entry, run both phases, go on with the
  updated frontier; an empty queue ends the search with \<^verbatim>\<open>None\<close>.
\<close>

function search_loop :: "graph \<Rightarrow> node \<Rightarrow> frontier \<Rightarrow> triple list option" where
  "search_loop g end_node ([], visited) = None"
| "search_loop g end_node ((current_node, path) # queue, visited) =
     (case explore_out current_node path end_node (predicate_objects g current_node)
             (queue, visited) of
        Return new_path \<Rightarrow> Some new_path
      | Continue fr \<Rightarrow>
          (case explore_in current_node path end_node (subject_predicates g current_node) fr of
             Return new_path \<Rightarrow> Some new_path
           | Continue fr' \<Rightarrow> search_loop g end_node fr'))"
  by pat_completeness auto

termination
proof (relation "measure (\<lambda>(g, e, fr). search_measure g fr)")
  show "wf (measure (\<lambda>(g, e, fr). search_measure g fr))" by simp
next
  fix g end_node current_node path queue visited fr fr'
  assume out: "explore_out current_node path end_node (predicate_objects g current_node)
                 (queue, visited) = Continue fr"
    and inn: "explore_in current_node path end_node (subject_predicates g current_node) fr
                 = Continue fr'"
  have "\<forall>(p, o') \<in> set (predicate_objects g current_node). o' \<in> graph_nodes g"
    using predicate_objects_nodes by blast
  then have "search_measure g fr \<le> search_measure g (queue, visited)"
    using out by (rule explore_out_measure)
  moreover have "\<forall>(s, p) \<in> set (subject_predicates g current_node). s \<in> graph_nodes g"
    using subject_predicates_nodes by blast
  then have "search_measure g fr' \<le> search_measure g fr"
    using inn by (rule explore_in_measure)
  moreover have "search_measure g (queue, visited)
      < search_measure g ((current_node, path) # queue, visited)"
    by (simp add: search_measure_def)
  ultimately show "((g, end_node, fr'), (g, end_node, (current_node, path) # queue, visited))
      \<in> measure (\<lambda>(g, e, fr). search_measure g fr)"
    by simp
qed

definition find_shortest_path :: "graph \<Rightarrow> node \<Rightarrow> node \<Rightarrow> triple list option" where
  "find_shortest_path g start_node end_node =
     (if start_node = end_node then Some []
      else search_loop g end_node ([(start_node, [])], {start_node}))"

section \<open>Library behaviour the engine relies on\<close>

text \<open>
  Three things the source leaves to the Python runtime and to rdflib are parameters of
  the model:
  \<^item> \<^verbatim>\<open>str.lower\<close> (Unicode lower-casing);
  \<^item> the order in which a Python \<^verbatim>\<open>set\<close> is iterated: a set is kept as the list of
    its distinct elements in insertion order, and the runtime turns that list into the
    order of iteration;
  \<^item> the Python value of a literal with a datatype: the text of \<^verbatim>\<open>str(lit.value)\<close> and
    the truth value of the literal, both from its lexical form and datatype URI.
\<close>

record runtime =
  str_lower :: "string \<Rightarrow> string"
  node_set_order :: "node list \<Rightarrow> node list"
  triple_set_order :: "triple list \<Rightarrow> triple list"
  typed_value_str :: "string \<Rightarrow> string \<Rightarrow> string"
  typed_truthy :: "string \<Rightarrow> string \<Rightarrow> bool"

text \<open>
  \<^verbatim>\<open>str(lit.value)\<close>: a literal without datatype has its lexical form as value.
\<close>

fun literal_value_str :: "runtime \<Rightarrow> node \<Rightarrow> string" where
  "literal_value_str rt (Literal l lang None) = l"
| "literal_value_str rt (Literal l lang (Some dt)) = typed_value_str rt l dt"
| "literal_value_str rt (URIRef u) = u"
| "literal_value_str rt (BNode b) = b"

text \<open>
  Truth value of a term in a condition: URI references and blank nodes are strings
  (true when not empty); a literal is true when its value is.
\<close>

fun truthy :: "runtime \<Rightarrow> node \<Rightarrow> bool" where
  "truthy rt (URIRef u) = (u \<noteq> [])"
| "truthy rt (BNode b) = (b \<noteq> [])"
| "truthy rt (Literal l lang None) = (l \<noteq> [])"
| "truthy rt (Literal l lang (Some dt)) = typed_truthy rt l dt"

text \<open>\<^verbatim>\<open>k in xs\<close> on strings: \<open>k\<close> occurs in \<open>xs\<close> as a contiguous substring.\<close>

fun starts_with :: "string \<Rightarrow> string \<Rightarrow> bool" where
  "starts_with xs [] = True"
| "starts_with [] (k # ks) = False"
| "starts_with (x # xs) (k # ks) = (x = k \<and> starts_with xs ks)"

fun contains :: "string \<Rightarrow> string \<Rightarrow> bool" where
  "contains [] k = (k = [])"
| "contains (x # xs) k = (starts_with (x # xs) k \<or> contains xs k)"

text \<open>\<^verbatim>\<open>set.add\<close> and \<^verbatim>\<open>set.update\<close> on a set kept in insertion order.\<close>

definition set_add :: "'a list \<Rightarrow> 'a \<Rightarrow> 'a list" where
  "set_add found x = (if x \<in> set found then found else found @ [x])"

definition set_update :: "'a list \<Rightarrow> 'a list \<Rightarrow> 'a list" where
  "set_update found xs = fold (\<lambda>x acc. set_add acc x) xs found"

text \<open>
  What the theorems about facts ask of the runtime: iterating a set visits exactly its
  elements.
\<close>

definition iterates_all :: "runtime \<Rightarrow> bool" where
  "iterates_all rt \<longleftrightarrow>
     (\<forall>xs. set (node_set_order rt xs) = set xs) \<and>
     (\<forall>ts. set (triple_set_order rt ts) = set ts)"

section \<open>Entity identification\<close>

text \<open>
  The synonym dictionary of \<^verbatim>\<open>_identify_all_entities\<close>, in the order of its entries.
  The accented letters are written as their UTF-8 bytes.
\<close>

definition synonym_map :: "(string \<times> string list) list" where
  "synonym_map =
     [(''solution'',
         [''Algorithme de compensation'',
          ''Strat'' @ [CHR 0xC3, CHR 0xA9] @ ''gie d'' @ [CHR 0x27] @ ''Optimisation'',
          ''Padding m'' @ [CHR 0xC3, CHR 0xA9] @ ''moire 3D'']),
      (''corriger'',
         [''Algorithme de compensation'',
          ''Strat'' @ [CHR 0xC3, CHR 0xA9] @ ''gie d'' @ [CHR 0x27] @ ''Optimisation'']),
      (''lent'',
         [''Goulot d'' @ [CHR 0x27, CHR 0xC3, CHR 0xA9] @ ''tranglement r''
            @ [CHR 0xC3, CHR 0xA9] @ ''seau'',
          ''Haute latence inter-groupe'']),
      (''probl'' @ [CHR 0xC3, CHR 0xA8] @ ''me'',
         [''Probl'' @ [CHR 0xC3, CHR 0xA8] @ ''me de pr'' @ [CHR 0xC3, CHR 0xA9] @ ''cision'',
          ''ProblemePerformance'',
          ''False sharing'',
          ''Bank conflicts L2''])]"

text \<open>
  The inner loop of the synonym pass: each label of an entry is looked up as the exact
  plain literal \<^verbatim>\<open>Literal(label_text)\<close>, and the subject found is added when it is true
  in a condition and a URI reference.
\<close>

fun add_synonym_labels :: "runtime \<Rightarrow> graph \<Rightarrow> string list \<Rightarrow> node list \<Rightarrow> node list" where
  "add_synonym_labels rt g [] found_entities = found_entities"
| "add_synonym_labels rt g (label_text # labels) found_entities =
     (case value_subject g RDFS_label (Literal label_text None None) of
        None \<Rightarrow> add_synonym_labels rt g labels found_entities
      | Some subject \<Rightarrow>
          if truthy rt subject \<and> is_URIRef subject
          then add_synonym_labels rt g labels (set_add found_entities subject)
          else add_synonym_labels rt g labels found_entities)"

fun synonym_pass ::
  "runtime \<Rightarrow> graph \<Rightarrow> string \<Rightarrow> (string \<times> string list) list \<Rightarrow> node list \<Rightarrow> node list" where
  "synonym_pass rt g question_lower [] found_entities = found_entities"
| "synonym_pass rt g question_lower ((keyword, labels_in_ontology) # entries) found_entities =
     (if contains question_lower keyword
      then synonym_pass rt g question_lower entries
             (add_synonym_labels rt g labels_in_ontology found_entities)
      else synonym_pass rt g question_lower entries found_entities)"

text \<open>The direct pass over the triples \<^verbatim>\<open>(None, RDFS.label, None)\<close>.\<close>

fun direct_pass :: "runtime \<Rightarrow> string \<Rightarrow> triple list \<Rightarrow> node list \<Rightarrow> node list" where
  "direct_pass rt question_lower [] found_entities = found_entities"
| "direct_pass rt question_lower ((s, p, o') # rest) found_entities =
     (if is_URIRef s \<and> is_Literal o' then
        (let label_lower = str_lower rt (literal_value_str rt o') in
         if contains question_lower label_lower then
           (if s \<notin> set found_entities
            then direct_pass rt question_lower rest (set_add found_entities s)
            else direct_pass rt question_lower rest found_entities)
         else direct_pass rt question_lower rest found_entities)
      else direct_pass rt question_lower rest found_entities)"

definition identify_all_entities :: "runtime \<Rightarrow> string \<Rightarrow> graph \<Rightarrow> node list" where
  "identify_all_entities rt q g =
     (let question_lower = str_lower rt q;
          found_entities = synonym_pass rt g question_lower synonym_map [];
          found_entities = direct_pass rt question_lower
                             (triples_with_predicate g RDFS_label) found_entities
      in node_set_order rt found_entities)"

section \<open>Rendering\<close>

datatype py_error = AttributeError

text \<open>\<^verbatim>\<open>s.split(c)[-1]\<close>: what follows the last \<open>c\<close>, the whole string when there is none.\<close>

definition after_last :: "char \<Rightarrow> string \<Rightarrow> string" where
  "after_last c s = rev (takeWhile (\<lambda>x. x \<noteq> c) (rev s))"

text \<open>
  \<^verbatim>\<open>_get_node_label\<close>. A label that is true in a condition but is no literal has no
  attribute \<^verbatim>\<open>value\<close>: the source raises \<^verbatim>\<open>AttributeError\<close> there.
\<close>

definition get_node_label :: "runtime \<Rightarrow> graph \<Rightarrow> node \<Rightarrow> py_error + string" where
  "get_node_label rt g node_uri =
     (if \<not> is_URIRef node_uri then Inr (str_of node_uri)
      else
        (case value_object g node_uri RDFS_label of
           None \<Rightarrow> Inr (after_last (CHR ''/'') (after_last (CHR ''#'') (str_of node_uri)))
         | Some label \<Rightarrow>
             if truthy rt label then
               (if is_Literal label then Inr (literal_value_str rt label)
                else Inl AttributeError)
             else Inr (after_last (CHR ''/'') (after_last (CHR ''#'') (str_of node_uri)))))"

text \<open>Running a rendering over a list stops at the first error, as the exception would.\<close>

fun map_result :: "('a \<Rightarrow> py_error + 'b) \<Rightarrow> 'a list \<Rightarrow> py_error + 'b list" where
  "map_result f [] = Inr []"
| "map_result f (x # xs) =
     (case f x of
        Inl e \<Rightarrow> Inl e
      | Inr y \<Rightarrow> (case map_result f xs of Inl e \<Rightarrow> Inl e | Inr ys \<Rightarrow> Inr (y # ys)))"

text \<open>The line of a fact: an object that is no URI reference is shown quoted.\<close>

definition format_fact :: "runtime \<Rightarrow> graph \<Rightarrow> triple \<Rightarrow> py_error + string" where
  "format_fact rt g t =
     (case t of (s, p, o') \<Rightarrow>
        (case get_node_label rt g s of
           Inl e \<Rightarrow> Inl e
         | Inr ls \<Rightarrow>
             (case get_node_label rt g p of
                Inl e \<Rightarrow> Inl e
              | Inr lp \<Rightarrow>
                  (case (if is_URIRef o' then get_node_label rt g o'
                         else Inr ([CHR 0x22] @ str_of o' @ [CHR 0x22])) of
                     Inl e \<Rightarrow> Inl e
                   | Inr lo \<Rightarrow> Inr (ls @ '' --['' @ lp @ '']--> '' @ lo)))))"

text \<open>The line of a path edge.\<close>

definition format_edge :: "runtime \<Rightarrow> graph \<Rightarrow> triple \<Rightarrow> py_error + string" where
  "format_edge rt g t =
     (case t of (s, p, o') \<Rightarrow>
        (case get_node_label rt g s of
           Inl e \<Rightarrow> Inl e
         | Inr ls \<Rightarrow>
             (case get_node_label rt g p of
                Inl e \<Rightarrow> Inl e
              | Inr lp \<Rightarrow>
                  (case get_node_label rt g o' of
                     Inl e \<Rightarrow> Inl e
                   | Inr lo \<Rightarrow> Inr (ls @ '' --['' @ lp @ '']--> '' @ lo)))))"

section \<open>The reasoning entry point\<close>

text \<open>The dictionary \<^verbatim>\<open>find_reasoning_path\<close> returns.\<close>

record report =
  question :: string
  entites_initiales :: "string list"
  chemin_trouve :: "string list"
  faits_deduits :: "string list"

text \<open>\<^verbatim>\<open>if path_found\<close>: neither \<^verbatim>\<open>None\<close> nor the empty list.\<close>

fun path_truthy :: "triple list option \<Rightarrow> bool" where
  "path_truthy None = False"
| "path_truthy (Some []) = False"
| "path_truthy (Some (t # ts)) = True"

text \<open>
  \<^verbatim>\<open>itertools.permutations(xs, 2)\<close>: the pairs of elements at two different positions,
  in the order of the positions.
\<close>

definition permutations2 :: "'a list \<Rightarrow> ('a \<times> 'a) list" where
  "permutations2 xs =
     concat (map (\<lambda>i. map (\<lambda>j. (xs ! i, xs ! j)) (filter (\<lambda>j. j \<noteq> i) [0..<length xs]))
                 [0..<length xs])"

text \<open>
  The loop over the pairs. Beside the variable \<^verbatim>\<open>path_found\<close> the model keeps the list
  of the pairs on which \<^verbatim>\<open>_find_shortest_path\<close> has been called, in call order.
\<close>

fun try_pairs ::
  "graph \<Rightarrow> (node \<times> node) list \<Rightarrow> triple list option \<times> (node \<times> node) list
     \<Rightarrow> triple list option \<times> (node \<times> node) list" where
  "try_pairs g [] (path_found, calls) = (path_found, calls)"
| "try_pairs g ((start_node, end_node) # pairs) (path_found, calls) =
     (let path_found' = find_shortest_path g start_node end_node in
      if path_truthy path_found' then (path_found', calls @ [(start_node, end_node)])
      else try_pairs g pairs (path_found', calls @ [(start_node, end_node)]))"

definition search_pairs ::
  "graph \<Rightarrow> node list \<Rightarrow> triple list option \<times> (node \<times> node) list" where
  "search_pairs g initial_entities =
     (if length initial_entities \<ge> 2
      then try_pairs g (permutations2 initial_entities) (None, [])
      else (None, []))"

text \<open>
  The set \<^verbatim>\<open>nodes_in_path\<close>: the subjects of the path and those of its objects that are
  URI references.
\<close>

definition nodes_in_path :: "triple list \<Rightarrow> node list" where
  "nodes_in_path path =
     set_update (set_update [] (map (\<lambda>(s, p, o'). s) path))
       (filter is_URIRef (map (\<lambda>(s, p, o'). o') path))"

text \<open>The label and type triples of one node, added to the facts.\<close>

definition add_node_facts :: "graph \<Rightarrow> node \<Rightarrow> triple list \<Rightarrow> triple list" where
  "add_node_facts g n all_facts_triplets =
     set_update all_facts_triplets
       (filter (\<lambda>(s, p, o'). p = RDFS_label \<or> p = RDF_type) (triples_from g n))"

text \<open>
  Step 3 of \<^verbatim>\<open>find_reasoning_path\<close>: with a path, the path and the label and type
  triples of its nodes; without one, every triple leaving the first entity.
\<close>

definition collect_facts ::
  "runtime \<Rightarrow> graph \<Rightarrow> node list \<Rightarrow> triple list option \<Rightarrow> triple list" where
  "collect_facts rt g initial_entities path_found =
     (case path_found of
        Some (t # ts) \<Rightarrow>
          fold (add_node_facts g) (node_set_order rt (nodes_in_path (t # ts)))
            (set_update [] (t # ts))
      | _ \<Rightarrow>
          (case initial_entities of
             [] \<Rightarrow> []
           | main_entity # others \<Rightarrow> set_update [] (triples_from g main_entity)))"

definition find_reasoning_path :: "runtime \<Rightarrow> string \<Rightarrow> graph \<Rightarrow> py_error + report" where
  "find_reasoning_path rt q g =
     (let initial_entities = identify_all_entities rt q g in
      if initial_entities = [] then
        Inr \<lparr>question = q, entites_initiales = [], chemin_trouve = [], faits_deduits = []\<rparr>
      else
        (let path_found = fst (search_pairs g initial_entities);
             all_facts_triplets = collect_facts rt g initial_entities path_found
         in
           (case map_result (format_fact rt g) (triple_set_order rt all_facts_triplets) of
              Inl e \<Rightarrow> Inl e
            | Inr formatted_facts \<Rightarrow>
                (case (case path_found of
                         Some (t # ts) \<Rightarrow> map_result (format_edge rt g) (t # ts)
                       | _ \<Rightarrow> Inr []) of
                   Inl e \<Rightarrow> Inl e
                 | Inr formatted_path \<Rightarrow>
                     (case map_result (get_node_label rt g) initial_entities of
                        Inl e \<Rightarrow> Inl e
                      | Inr labels \<Rightarrow>
                          Inr \<lparr>question = q, entites_initiales = labels,
                               chemin_trouve = formatted_path,
                               faits_deduits = formatted_facts\<rparr>)))))"

text \<open>
  The value of the variable \<^verbatim>\<open>all_facts_triplets\<close> at the end of step 3, for a question
  and a store; it is empty when the resolver finds nothing.
\<close>

definition all_facts_triplets :: "runtime \<Rightarrow> string \<Rightarrow> graph \<Rightarrow> triple list" where
  "all_facts_triplets rt q g =
     (let initial_entities = identify_all_entities rt q g
      in collect_facts rt g initial_entities (fst (search_pairs g initial_entities)))"

section \<open>Connections in the graph\<close>

text \<open>
  A chain from \<open>a\<close> to \<open>b\<close> is a sequence of stored triples in which each hop leaves the
  node reached so far along a triple, in either direction of the triple, whatever kind
  of node it arrives at.
\<close>

fun chain :: "graph \<Rightarrow> node \<Rightarrow> triple list \<Rightarrow> node \<Rightarrow> bool" where
  "chain g a [] b = (a = b)"
| "chain g a ((s, p, o') # ts) b =
     ((s, p, o') \<in> set g \<and> ((s = a \<and> chain g o' ts b) \<or> (o' = a \<and> chain g s ts b)))"

text \<open>
  A connection from \<open>a\<close> to \<open>b\<close> is a chain each hop of which arrives at a URI reference:
  these are the chains the search can follow, since both of its phases step to URI
  references only.
\<close>

fun connects :: "graph \<Rightarrow> node \<Rightarrow> triple list \<Rightarrow> node \<Rightarrow> bool" where
  "connects g a [] b = (a = b)"
| "connects g a ((s, p, o') # ts) b =
     ((s, p, o') \<in> set g \<and>
      ((s = a \<and> is_URIRef o' \<and> connects g o' ts b) \<or>
       (o' = a \<and> is_URIRef s \<and> connects g s ts b)))"

text \<open>The nodes a path passes, from its start: each hop moves to the other end of its triple.\<close>

fun path_nodes :: "node \<Rightarrow> triple list \<Rightarrow> node list" where
  "path_nodes a [] = [a]"
| "path_nodes a ((s, p, o') # ts) = a # path_nodes (if s = a then o' else s) ts"

section \<open>Fixture graphs\<close>

text \<open>Small stores on which the theorems below are instantiated.\<close>

definition ex_A :: node where "ex_A = URIRef ''ex:A''"
definition ex_B :: node where "ex_B = URIRef ''ex:B''"
definition ex_C :: node where "ex_C = URIRef ''ex:C''"
definition ex_rel :: node where "ex_rel = URIRef ''ex:rel''"

definition direct_and_detour :: graph where
  "direct_and_detour = [(ex_A, ex_rel, ex_C), (ex_C, ex_rel, ex_B), (ex_A, ex_rel, ex_B)]"

definition reversed_edge :: graph where
  "reversed_edge = [(ex_B, ex_rel, ex_A)]"


definition ex_D :: node where "ex_D = URIRef ''ex:D''"

text \<open>Two entities with a triple each to a third one.\<close>

definition common_target :: graph where
  "common_target = [(ex_A, ex_rel, ex_C), (ex_B, ex_rel, ex_C)]"

text \<open>
  Two entities joined through a blank node in two hops and through URI references in
  three.
\<close>

definition ex_blank :: node where "ex_blank = BNode ''b0''"

definition blank_shortcut :: graph where
  "blank_shortcut =
     [(ex_A, ex_rel, ex_blank), (ex_blank, ex_rel, ex_B),
      (ex_A, ex_rel, ex_C), (ex_C, ex_rel, ex_D), (ex_D, ex_rel, ex_B)]"

text \<open>Two entities that share nothing but the value of a literal.\<close>

definition shared_literal :: graph where
  "shared_literal =
     [(ex_A, RDFS_label, Literal ''x'' None None), (ex_B, RDFS_label, Literal ''x'' None None)]"

text \<open>
  A runtime for the examples: ASCII lower-casing, sets iterated in insertion order, a
  typed literal valued by its lexical form.
\<close>

definition ascii_lower :: "char \<Rightarrow> char" where
  "ascii_lower c =
     (if 65 \<le> (of_char c :: nat) \<and> (of_char c :: nat) \<le> 90
      then char_of ((of_char c :: nat) + 32) else c)"

definition example_runtime :: runtime where
  "example_runtime =
     \<lparr>str_lower = map ascii_lower,
      node_set_order = (\<lambda>xs. xs),
      triple_set_order = (\<lambda>ts. ts),
      typed_value_str = (\<lambda>l dt. l),
      typed_truthy = (\<lambda>l dt. l \<noteq> [])\<rparr>"

text \<open>A small ontology: a problem, the strategy that solves it, their labels and types.\<close>

definition ex_fs :: node where "ex_fs = URIRef ''http://example.org/onto#FalseSharing''"
definition ex_cla :: node where "ex_cla = URIRef ''http://example.org/onto#CacheLineAlignment''"
definition ex_resolu :: node where "ex_resolu = URIRef ''http://example.org/onto#estResoluPar''"
definition ex_cause :: node where "ex_cause = URIRef ''http://example.org/onto#cause''"
definition ex_class :: node where "ex_class = URIRef ''http://example.org/onto#Concept''"

definition ontology :: graph where
  "ontology =
     [(ex_fs, RDFS_label, Literal ''False sharing'' None None),
      (ex_fs, RDF_type, ex_class),
      (ex_fs, ex_cause, Literal ''perte de performance'' None None),
      (ex_fs, ex_resolu, ex_cla),
      (ex_cla, RDFS_label, Literal ''Cache line alignment'' None None),
      (ex_cla, RDF_type, ex_class)]"

text \<open>Two entities of the ontology with no triple between them.\<close>

definition two_topics :: graph where
  "two_topics =
     [(ex_fs, RDFS_label, Literal ''False sharing'' None None),
      (ex_fs, ex_cause, Literal ''perte de performance'' None None),
      (ex_cla, RDFS_label, Literal ''Cache line alignment'' None None),
      (ex_cla, RDF_type, ex_class)]"

text \<open>
  Two more runtimes: one iterates every set in reverse insertion order, one only the
  set of facts.
\<close>

definition reversing_runtime :: runtime where
  "reversing_runtime = example_runtime\<lparr>node_set_order := rev, triple_set_order := rev\<rparr>"

definition facts_reversed_runtime :: runtime where
  "facts_reversed_runtime = example_runtime\<lparr>triple_set_order := rev\<rparr>"

definition probleme_question :: string where
  "probleme_question = ''Quel probl'' @ [CHR 0xC3, CHR 0xA8] @ ''me de performance ?''"

definition link_question :: string where
  "link_question = ''Quel lien entre False Sharing et Cache Line Alignment ?''"

definition alignment_question :: string where
  "alignment_question = ''Que fait le cache line alignment ?''"


section \<open>Correctness of the path search\<close>

text \<open>
  \<open>edge_between g a t b\<close>: the stored triple \<open>t\<close> joins \<open>a\<close> and the URI reference \<open>b\<close>,
  in either direction. \<open>grows\<close> describes what one round may do to the frontier: append
  entries for fresh nodes, none of them the end node, each reached by one more hop from
  the current node.
\<close>

definition edge_between :: "graph \<Rightarrow> node \<Rightarrow> triple \<Rightarrow> node \<Rightarrow> bool" where
  "edge_between g a t b \<longleftrightarrow>
     t \<in> set g \<and> is_URIRef b \<and> (\<exists>p. t = (a, p, b) \<or> t = (b, p, a))"

definition grows :: "graph \<Rightarrow> node \<Rightarrow> triple list \<Rightarrow> node \<Rightarrow> frontier \<Rightarrow> frontier \<Rightarrow> bool" where
  "grows g c path e fr fr' \<longleftrightarrow>
     (\<exists>added. fst fr' = fst fr @ added \<and> snd fr' = snd fr \<union> fst ` set added \<and>
        (\<forall>(n, np) \<in> set added. n \<notin> snd fr \<and> n \<noteq> e \<and>
           (\<exists>t. np = path @ [t] \<and> edge_between g c t n)))"

lemma connects_Cons:
  "connects g a (t # ts) b \<longleftrightarrow> (\<exists>m. edge_between g a t m \<and> connects g m ts b)"
  by (cases t) (auto simp: edge_between_def)

lemma connects_append:
  "connects g a (xs @ ys) b \<longleftrightarrow> (\<exists>m. connects g a xs m \<and> connects g m ys b)"
proof (induction xs arbitrary: a)
  case Nil
  show ?case by simp
next
  case (Cons t xs)
  show ?case
    unfolding append_Cons connects_Cons Cons.IH by blast
qed

lemma connects_single: "connects g a [t] b \<longleftrightarrow> edge_between g a t b"
  by (simp add: connects_Cons)

lemma connects_snoc:
  "connects g a (xs @ [t]) b \<longleftrightarrow> (\<exists>m. connects g a xs m \<and> edge_between g m t b)"
  by (simp add: connects_append connects_single)

lemma connects_in_graph: "connects g a ts b \<Longrightarrow> set ts \<subseteq> set g"
  by (induction ts arbitrary: a) (auto simp: connects_Cons edge_between_def)

lemma grows_refl: "grows g c path e fr fr"
  unfolding grows_def by (intro exI [of _ "[]"]) simp

lemma grows_mono: "grows g c path e fr fr' \<Longrightarrow> snd fr \<subseteq> snd fr'"
  unfolding grows_def by blast

lemma grows_trans:
  assumes "grows g c path e fr1 fr2" "grows g c path e fr2 fr3"
  shows "grows g c path e fr1 fr3"
proof -
  from assms(1) obtain a1 where a1: "fst fr2 = fst fr1 @ a1" "snd fr2 = snd fr1 \<union> fst ` set a1"
    "\<forall>(n, np) \<in> set a1. n \<notin> snd fr1 \<and> n \<noteq> e \<and> (\<exists>t. np = path @ [t] \<and> edge_between g c t n)"
    unfolding grows_def by blast
  from assms(2) obtain a2 where a2: "fst fr3 = fst fr2 @ a2" "snd fr3 = snd fr2 \<union> fst ` set a2"
    "\<forall>(n, np) \<in> set a2. n \<notin> snd fr2 \<and> n \<noteq> e \<and> (\<exists>t. np = path @ [t] \<and> edge_between g c t n)"
    unfolding grows_def by blast
  have "fst fr3 = fst fr1 @ (a1 @ a2)" using a1(1) a2(1) by simp
  moreover have "snd fr3 = snd fr1 \<union> fst ` set (a1 @ a2)" using a1(2) a2(2) by auto
  moreover have "\<forall>(n, np) \<in> set (a1 @ a2). n \<notin> snd fr1 \<and> n \<noteq> e \<and>
      (\<exists>t. np = path @ [t] \<and> edge_between g c t n)"
    using a1(3) a2(3) a1(2) by auto
  ultimately show ?thesis unfolding grows_def by blast
qed

lemma grows_enqueue:
  assumes "n \<notin> v" "n \<noteq> e" "edge_between g c t n"
  shows "grows g c path e (q, v) (q @ [(n, path @ [t])], insert n v)"
proof -
  obtain s p o' where t: "t = (s, p, o')" by (cases t)
  show ?thesis
    unfolding grows_def using assms unfolding t
    by (intro exI [of _ "[(n, path @ [(s, p, o')])]"]) simp
qed

lemma explore_out_grows:
  assumes "\<forall>(p, o') \<in> set rows. (c, p, o') \<in> set g"
    and "explore_out c path e rows fr = Continue fr'"
  shows "grows g c path e fr fr'"
  using assms
proof (induction rows arbitrary: fr)
  case Nil
  then show ?case by (cases fr) (simp add: grows_refl)
next
  case (Cons row rows)
  obtain p o' where row: "row = (p, o')" by (cases row)
  obtain q v where fr: "fr = (q, v)" by (cases fr)
  have rows: "\<forall>(p, o') \<in> set rows. (c, p, o') \<in> set g" using Cons.prems(1) by simp
  have ing: "(c, p, o') \<in> set g" using Cons.prems(1) row by simp
  have run: "explore_out c path e ((p, o') # rows) (q, v) = Continue fr'"
    using Cons.prems(2) row fr by simp
  show ?case
  proof (cases "is_URIRef o' \<and> o' \<notin> v")
    case True
    with run have ne: "o' \<noteq> e" and rec:
      "explore_out c path e rows (q @ [(o', path @ [(c, p, o')])], insert o' v) = Continue fr'"
      by (simp_all add: Let_def split: if_splits)
    have "edge_between g c (c, p, o') o'" using ing True by (auto simp: edge_between_def)
    with True ne have "grows g c path e (q, v) (q @ [(o', path @ [(c, p, o')])], insert o' v)"
      by (intro grows_enqueue) simp_all
    moreover have "grows g c path e (q @ [(o', path @ [(c, p, o')])], insert o' v) fr'"
      using rows rec by (rule Cons.IH)
    ultimately show ?thesis unfolding fr by (rule grows_trans)
  next
    case False
    with run have "explore_out c path e rows fr = Continue fr'"
      unfolding fr by (simp split: if_splits)
    with rows show ?thesis by (rule Cons.IH)
  qed
qed

lemma explore_in_grows:
  assumes "\<forall>(s, p) \<in> set rows. (s, p, c) \<in> set g"
    and "explore_in c path e rows fr = Continue fr'"
  shows "grows g c path e fr fr'"
  using assms
proof (induction rows arbitrary: fr)
  case Nil
  then show ?case by (cases fr) (simp add: grows_refl)
next
  case (Cons row rows)
  obtain s p where row: "row = (s, p)" by (cases row)
  obtain q v where fr: "fr = (q, v)" by (cases fr)
  have rows: "\<forall>(s, p) \<in> set rows. (s, p, c) \<in> set g" using Cons.prems(1) by simp
  have ing: "(s, p, c) \<in> set g" using Cons.prems(1) row by simp
  have run: "explore_in c path e ((s, p) # rows) (q, v) = Continue fr'"
    using Cons.prems(2) row fr by simp
  show ?case
  proof (cases "is_URIRef s \<and> s \<notin> v")
    case True
    with run have ne: "s \<noteq> e" and rec:
      "explore_in c path e rows (q @ [(s, path @ [(s, p, c)])], insert s v) = Continue fr'"
      by (simp_all add: Let_def split: if_splits)
    have "edge_between g c (s, p, c) s" using ing True by (auto simp: edge_between_def)
    with True ne have "grows g c path e (q, v) (q @ [(s, path @ [(s, p, c)])], insert s v)"
      by (intro grows_enqueue) simp_all
    moreover have "grows g c path e (q @ [(s, path @ [(s, p, c)])], insert s v) fr'"
      using rows rec by (rule Cons.IH)
    ultimately show ?thesis unfolding fr by (rule grows_trans)
  next
    case False
    with run have "explore_in c path e rows fr = Continue fr'"
      unfolding fr by (simp split: if_splits)
    with rows show ?thesis by (rule Cons.IH)
  qed
qed

text \<open>After a phase that falls through, every URI reference among its rows is visited.\<close>

lemma explore_out_covers:
  assumes "explore_out c path e rows fr = Continue fr'"
  shows "snd fr \<subseteq> snd fr' \<and> (\<forall>(p, o') \<in> set rows. is_URIRef o' \<longrightarrow> o' \<in> snd fr')"
  using assms
proof (induction rows arbitrary: fr)
  case Nil
  then show ?case by (cases fr) simp
next
  case (Cons row rows)
  obtain p o' where row: "row = (p, o')" by (cases row)
  obtain q v where fr: "fr = (q, v)" by (cases fr)
  have run: "explore_out c path e ((p, o') # rows) (q, v) = Continue fr'"
    using Cons.prems row fr by simp
  show ?case
  proof (cases "is_URIRef o' \<and> o' \<notin> v")
    case True
    with run have rec:
      "explore_out c path e rows (q @ [(o', path @ [(c, p, o')])], insert o' v) = Continue fr'"
      by (simp_all add: Let_def split: if_splits)
    from Cons.IH [OF rec] show ?thesis unfolding fr row by auto
  next
    case False
    with run have "explore_out c path e rows (q, v) = Continue fr'"
      by (simp split: if_splits)
    from Cons.IH [OF this] False show ?thesis unfolding fr row by auto
  qed
qed

lemma explore_in_covers:
  assumes "explore_in c path e rows fr = Continue fr'"
  shows "snd fr \<subseteq> snd fr' \<and> (\<forall>(s, p) \<in> set rows. is_URIRef s \<longrightarrow> s \<in> snd fr')"
  using assms
proof (induction rows arbitrary: fr)
  case Nil
  then show ?case by (cases fr) simp
next
  case (Cons row rows)
  obtain s p where row: "row = (s, p)" by (cases row)
  obtain q v where fr: "fr = (q, v)" by (cases fr)
  have run: "explore_in c path e ((s, p) # rows) (q, v) = Continue fr'"
    using Cons.prems row fr by simp
  show ?case
  proof (cases "is_URIRef s \<and> s \<notin> v")
    case True
    with run have rec:
      "explore_in c path e rows (q @ [(s, path @ [(s, p, c)])], insert s v) = Continue fr'"
      by (simp_all add: Let_def split: if_splits)
    from Cons.IH [OF rec] show ?thesis unfolding fr row by auto
  next
    case False
    with run have "explore_in c path e rows (q, v) = Continue fr'"
      by (simp split: if_splits)
    from Cons.IH [OF this] False show ?thesis unfolding fr row by auto
  qed
qed

text \<open>A phase that returns hands back the path of the current entry with one more hop, to the end node.\<close>

lemma explore_out_Return:
  assumes "\<forall>(p, o') \<in> set rows. (c, p, o') \<in> set g"
    and "explore_out c path e rows fr = Return np"
  shows "\<exists>fr1 t. grows g c path e fr fr1 \<and> np = path @ [t] \<and> edge_between g c t e \<and> e \<notin> snd fr1"
  using assms
proof (induction rows arbitrary: fr)
  case Nil
  then show ?case by (cases fr) simp
next
  case (Cons row rows)
  obtain p o' where row: "row = (p, o')" by (cases row)
  obtain q v where fr: "fr = (q, v)" by (cases fr)
  have rows: "\<forall>(p, o') \<in> set rows. (c, p, o') \<in> set g" using Cons.prems(1) by simp
  have ing: "(c, p, o') \<in> set g" using Cons.prems(1) row by simp
  have run: "explore_out c path e ((p, o') # rows) (q, v) = Return np"
    using Cons.prems(2) row fr by simp
  show ?case
  proof (cases "is_URIRef o' \<and> o' \<notin> v")
    case True
    have edge: "edge_between g c (c, p, o') o'" using ing True by (auto simp: edge_between_def)
    show ?thesis
    proof (cases "o' = e")
      case True
      with run \<open>is_URIRef o' \<and> o' \<notin> v\<close> have "np = path @ [(c, p, o')]"
        by (simp add: Let_def)
      with edge True \<open>is_URIRef o' \<and> o' \<notin> v\<close> show ?thesis
        unfolding fr using grows_refl [of g c path e "(q, v)"] by auto
    next
      case False
      with run \<open>is_URIRef o' \<and> o' \<notin> v\<close> have rec:
        "explore_out c path e rows (q @ [(o', path @ [(c, p, o')])], insert o' v) = Return np"
        by (simp add: Let_def)
      from Cons.IH [OF rows rec] obtain fr1 t where
        *: "grows g c path e (q @ [(o', path @ [(c, p, o')])], insert o' v) fr1"
           "np = path @ [t]" "edge_between g c t e" "e \<notin> snd fr1"
        by blast
      have "grows g c path e (q, v) (q @ [(o', path @ [(c, p, o')])], insert o' v)"
        using \<open>is_URIRef o' \<and> o' \<notin> v\<close> False edge by (intro grows_enqueue) simp_all
      then have "grows g c path e (q, v) fr1" using *(1) by (rule grows_trans)
      with * show ?thesis unfolding fr by blast
    qed
  next
    case False
    with run have "explore_out c path e rows fr = Return np"
      unfolding fr by (simp split: if_splits)
    from Cons.IH [OF rows this] show ?thesis .
  qed
qed

lemma explore_in_Return:
  assumes "\<forall>(s, p) \<in> set rows. (s, p, c) \<in> set g"
    and "explore_in c path e rows fr = Return np"
  shows "\<exists>fr1 t. grows g c path e fr fr1 \<and> np = path @ [t] \<and> edge_between g c t e \<and> e \<notin> snd fr1"
  using assms
proof (induction rows arbitrary: fr)
  case Nil
  then show ?case by (cases fr) simp
next
  case (Cons row rows)
  obtain s p where row: "row = (s, p)" by (cases row)
  obtain q v where fr: "fr = (q, v)" by (cases fr)
  have rows: "\<forall>(s, p) \<in> set rows. (s, p, c) \<in> set g" using Cons.prems(1) by simp
  have ing: "(s, p, c) \<in> set g" using Cons.prems(1) row by simp
  have run: "explore_in c path e ((s, p) # rows) (q, v) = Return np"
    using Cons.prems(2) row fr by simp
  show ?case
  proof (cases "is_URIRef s \<and> s \<notin> v")
    case True
    have edge: "edge_between g c (s, p, c) s" using ing True by (auto simp: edge_between_def)
    show ?thesis
    proof (cases "s = e")
      case True
      with run \<open>is_URIRef s \<and> s \<notin> v\<close> have "np = path @ [(s, p, c)]"
        by (simp add: Let_def)
      with edge True \<open>is_URIRef s \<and> s \<notin> v\<close> show ?thesis
        unfolding fr using grows_refl [of g c path e "(q, v)"] by auto
    next
      case False
      with run \<open>is_URIRef s \<and> s \<notin> v\<close> have rec:
        "explore_in c path e rows (q @ [(s, path @ [(s, p, c)])], insert s v) = Return np"
        by (simp add: Let_def)
      from Cons.IH [OF rows rec] obtain fr1 t where
        *: "grows g c path e (q @ [(s, path @ [(s, p, c)])], insert s v) fr1"
           "np = path @ [t]" "edge_between g c t e" "e \<notin> snd fr1"
        by blast
      have "grows g c path e (q, v) (q @ [(s, path @ [(s, p, c)])], insert s v)"
        using \<open>is_URIRef s \<and> s \<notin> v\<close> False edge by (intro grows_enqueue) simp_all
      then have "grows g c path e (q, v) fr1" using *(1) by (rule grows_trans)
      with * show ?thesis unfolding fr by blast
    qed
  next
    case False
    with run have "explore_in c path e rows fr = Return np"
      unfolding fr by (simp split: if_splits)
    from Cons.IH [OF rows this] show ?thesis .
  qed
qed

subsection \<open>The invariant of the search loop\<close>

text \<open>
  Every queue entry holds a shortest connection from the start to its node and is a
  simple chain inside the visited set; the queue is sorted by path length and its
  lengths differ by at most one; a visited node is still queued or has all its
  neighbours visited; the end node is not visited.
\<close>

definition closed_at :: "graph \<Rightarrow> node set \<Rightarrow> node \<Rightarrow> bool" where
  "closed_at g v x \<longleftrightarrow> (\<forall>t y. edge_between g x t y \<longrightarrow> y \<in> v)"

definition reaches :: "graph \<Rightarrow> node \<Rightarrow> node set \<Rightarrow> node \<times> triple list \<Rightarrow> bool" where
  "reaches g s v entry \<longleftrightarrow>
     fst entry \<in> v \<and> connects g s (snd entry) (fst entry) \<and>
     (\<forall>r. connects g s r (fst entry) \<longrightarrow> length (snd entry) \<le> length r)"

definition entity_ends :: "node \<Rightarrow> triple list \<Rightarrow> bool" where
  "entity_ends s p \<longleftrightarrow>
     (\<forall>(s', p', o') \<in> set p. (s' = s \<or> is_URIRef s') \<and> (o' = s \<or> is_URIRef o'))"

definition simple_entry :: "node \<Rightarrow> node set \<Rightarrow> node \<times> triple list \<Rightarrow> bool" where
  "simple_entry s v entry \<longleftrightarrow>
     set (path_nodes s (snd entry)) \<subseteq> v \<and> distinct (path_nodes s (snd entry)) \<and>
     last (path_nodes s (snd entry)) = fst entry \<and>
     (fst entry = s \<or> is_URIRef (fst entry)) \<and> entity_ends s (snd entry)"

definition search_inv :: "graph \<Rightarrow> node \<Rightarrow> node \<Rightarrow> frontier \<Rightarrow> bool" where
  "search_inv g s e fr \<longleftrightarrow>
     s \<in> snd fr \<and> e \<notin> snd fr \<and>
     (\<forall>en \<in> set (fst fr). reaches g s (snd fr) en \<and> simple_entry s (snd fr) en) \<and>
     sorted (map (\<lambda>en. length (snd en)) (fst fr)) \<and>
     (\<forall>en \<in> set (fst fr). \<forall>en' \<in> set (fst fr). length (snd en') \<le> Suc (length (snd en))) \<and>
     (\<forall>x \<in> snd fr. x \<in> fst ` set (fst fr) \<or> closed_at g (snd fr) x)"

lemma path_nodes_nonempty: "path_nodes a ts \<noteq> []"
  by (induction ts arbitrary: a) auto

lemma path_nodes_snoc:
  assumes "last (path_nodes a xs) = c" "\<exists>p. t = (c, p, n) \<or> t = (n, p, c)"
  shows "path_nodes a (xs @ [t]) = path_nodes a xs @ [n]"
  using assms
proof (induction xs arbitrary: a)
  case Nil
  then show ?case by auto
next
  case (Cons x xs)
  obtain s p o' where x: "x = (s, p, o')" by (cases x)
  from Cons.prems(1) have "last (path_nodes (if s = a then o' else s) xs) = c"
    unfolding x by (simp add: path_nodes_nonempty)
  from Cons.IH [OF this Cons.prems(2)] show ?case unfolding x by simp
qed

lemma frontier_bound:
  assumes "s \<in> v"
    and "\<forall>en \<in> set q. reaches g s v en"
    and "\<forall>x \<in> v. x \<in> fst ` set q \<or> closed_at g v x"
    and "connects g s r x"
  shows "x \<in> v \<or> (\<exists>en \<in> set q. length (snd en) < length r)"
  using assms(4)
proof (induction r arbitrary: x rule: rev_induct)
  case Nil
  then show ?case using assms(1) by simp
next
  case (snoc t r)
  from snoc.prems obtain y where y: "connects g s r y" "edge_between g y t x"
    unfolding connects_snoc by blast
  from snoc.IH [OF y(1)] show ?case
  proof
    assume "y \<in> v"
    with assms(3) have "y \<in> fst ` set q \<or> closed_at g v y" by blast
    then show ?thesis
    proof
      assume "y \<in> fst ` set q"
      then obtain en where en: "en \<in> set q" "fst en = y" by auto
      with assms(2) have "reaches g s v en" by blast
      with en(2) y(1) have "length (snd en) \<le> length r" unfolding reaches_def by blast
      then have "length (snd en) < length (r @ [t])" by simp
      with en(1) show ?thesis by blast
    next
      assume "closed_at g v y"
      with y(2) show ?thesis unfolding closed_at_def by blast
    qed
  next
    assume "\<exists>en \<in> set q. length (snd en) < length r"
    then obtain en where "en \<in> set q" "length (snd en) < length (r @ [t])" by auto
    then show ?thesis by blast
  qed
qed

lemma inv_head_min:
  assumes "search_inv g s e ((c, path) # q, v)" "en \<in> set ((c, path) # q)"
  shows "length path \<le> length (snd en)"
  using assms unfolding search_inv_def by auto

lemma inv_unreached:
  assumes inv: "search_inv g s e ((c, path) # q, v)" and r: "connects g s r x" and x: "x \<notin> v"
  shows "length path < length r"
proof -
  have "x \<in> v \<or> (\<exists>en \<in> set ((c, path) # q). length (snd en) < length r)"
    using inv r unfolding search_inv_def by (intro frontier_bound [where g = g and s = s]) simp_all
  with x obtain en where en: "en \<in> set ((c, path) # q)" "length (snd en) < length r" by blast
  from inv_head_min [OF inv en(1)] en(2) show ?thesis by simp
qed

lemma inv_empty:
  assumes "search_inv g s e ([], v)"
  shows "\<not> connects g s r e"
proof
  assume c: "connects g s r e"
  have "s \<in> v" "\<forall>en \<in> set ([] :: (node \<times> triple list) list). reaches g s v en"
    "\<forall>x \<in> v. x \<in> fst ` set ([] :: (node \<times> triple list) list) \<or> closed_at g v x"
    using assms unfolding search_inv_def by simp_all
  then have "e \<in> v \<or>
      (\<exists>en \<in> set ([] :: (node \<times> triple list) list). length (snd en) < length r)"
    using c by (rule frontier_bound)
  with assms show False unfolding search_inv_def by simp
qed

lemma inv_init: "s \<noteq> e \<Longrightarrow> search_inv g s e ([(s, [])], {s})"
  unfolding search_inv_def reaches_def simple_entry_def entity_ends_def by simp

text \<open>An entry the current round enqueues is a shortest connection and a simple chain.\<close>

lemma new_entry:
  assumes inv: "search_inv g s e ((c, path) # q, v)"
    and edge: "edge_between g c t n" and fresh: "n \<notin> v" and sub: "v \<subseteq> v'" and n: "n \<in> v'"
  shows "reaches g s v' (n, path @ [t]) \<and> simple_entry s v' (n, path @ [t])"
proof -
  from inv have hd: "reaches g s v (c, path)" "simple_entry s v (c, path)"
    unfolding search_inv_def by simp_all
  have conn: "connects g s (path @ [t]) n"
    using hd(1) edge unfolding connects_snoc reaches_def by auto
  have short: "\<forall>r. connects g s r n \<longrightarrow> length (path @ [t]) \<le> length r"
    using inv_unreached [OF inv _ fresh] by fastforce
  have hop: "\<exists>p. t = (c, p, n) \<or> t = (n, p, c)" and uri: "is_URIRef n"
    using edge unfolding edge_between_def by auto
  from hd(2) have last: "last (path_nodes s path) = c" unfolding simple_entry_def by simp
  have nodes: "path_nodes s (path @ [t]) = path_nodes s path @ [n]"
    using last hop by (rule path_nodes_snoc)
  have "n \<notin> set (path_nodes s path)" using hd(2) fresh unfolding simple_entry_def by auto
  then have dist: "distinct (path_nodes s (path @ [t]))"
    using hd(2) unfolding nodes simple_entry_def by simp
  have subs: "set (path_nodes s (path @ [t])) \<subseteq> v'"
    using hd(2) sub n unfolding nodes simple_entry_def by auto
  have "c = s \<or> is_URIRef c" using hd(2) unfolding simple_entry_def by simp
  with hop uri have "entity_ends s [t]" unfolding entity_ends_def by auto
  with hd(2) have ends: "entity_ends s (path @ [t])"
    unfolding simple_entry_def entity_ends_def by auto
  show ?thesis
    unfolding reaches_def simple_entry_def
    using conn short n dist subs ends uri nodes by simp
qed

lemma entry_mono:
  assumes "reaches g s v en \<and> simple_entry s v en" "v \<subseteq> v'"
  shows "reaches g s v' en \<and> simple_entry s v' en"
  using assms unfolding reaches_def simple_entry_def by auto

lemma closed_at_mono: "closed_at g v x \<Longrightarrow> v \<subseteq> v' \<Longrightarrow> closed_at g v' x"
  unfolding closed_at_def by blast

lemma inv_step:
  assumes inv: "search_inv g s e ((c, path) # q, v)"
    and gr: "grows g c path e (q, v) (q', v')"
    and cov: "closed_at g v' c"
  shows "search_inv g s e (q', v')"
proof -
  from gr obtain added where q': "q' = q @ added" and v': "v' = v \<union> fst ` set added"
    and added: "\<forall>(n, np) \<in> set added. n \<notin> v \<and> n \<noteq> e \<and>
        (\<exists>t. np = path @ [t] \<and> edge_between g c t n)"
    unfolding grows_def by auto
  have sub: "v \<subseteq> v'" using v' by blast
  have s: "s \<in> v'" using inv sub unfolding search_inv_def by auto
  have e: "e \<notin> v'" using inv added unfolding search_inv_def v' by auto
  have old: "\<forall>en \<in> set q. reaches g s v' en \<and> simple_entry s v' en"
  proof
    fix en assume "en \<in> set q"
    with inv have "reaches g s v en \<and> simple_entry s v en" unfolding search_inv_def by simp
    then show "reaches g s v' en \<and> simple_entry s v' en" using sub by (rule entry_mono)
  qed
  have new: "\<forall>en \<in> set added. reaches g s v' en \<and> simple_entry s v' en"
  proof
    fix en assume en: "en \<in> set added"
    obtain n np where nn: "en = (n, np)" by (cases en)
    with en added obtain t where t: "n \<notin> v" "np = path @ [t]" "edge_between g c t n" by blast
    have "n \<in> v'" using en nn unfolding v' by force
    from new_entry [OF inv t(3) t(1) sub this] show "reaches g s v' en \<and> simple_entry s v' en"
      unfolding nn t(2) .
  qed
  have len_new: "\<forall>en \<in> set added. length (snd en) = Suc (length path)"
    using added by fastforce
  have len_lo: "\<forall>en \<in> set q. length path \<le> length (snd en)"
    using inv_head_min [OF inv] by simp
  have len_hi: "\<forall>en \<in> set q. length (snd en) \<le> Suc (length path)"
    using inv unfolding search_inv_def by simp
  have sorted_q: "sorted (map (\<lambda>en. length (snd en)) q)"
    using inv unfolding search_inv_def by simp
  have sorted_new: "sorted (map (\<lambda>en. length (snd en)) added)"
    using len_new by (simp add: sorted_wrt_iff_nth_less sorted_iff_nth_mono)
  have srt: "sorted (map (\<lambda>en. length (snd en)) q')"
    unfolding q' using sorted_q sorted_new len_hi len_new by (auto simp: sorted_append)
  have lo: "\<forall>en \<in> set q'. length path \<le> length (snd en)"
    unfolding q' using len_lo len_new by auto
  have hi: "\<forall>en \<in> set q'. length (snd en) \<le> Suc (length path)"
    unfolding q' using len_hi len_new by auto
  have near: "\<forall>en \<in> set q'. \<forall>en' \<in> set q'. length (snd en') \<le> Suc (length (snd en))"
  proof (intro ballI)
    fix en en' assume "en \<in> set q'" "en' \<in> set q'"
    with lo hi have "length path \<le> length (snd en)" "length (snd en') \<le> Suc (length path)"
      by blast+
    then show "length (snd en') \<le> Suc (length (snd en))" by simp
  qed
  have cl: "\<forall>x \<in> v'. x \<in> fst ` set q' \<or> closed_at g v' x"
  proof
    fix x assume "x \<in> v'"
    then consider "x \<in> v" | "x \<in> fst ` set added" unfolding v' by blast
    then show "x \<in> fst ` set q' \<or> closed_at g v' x"
    proof cases
      case 1
      with inv have "x \<in> fst ` set ((c, path) # q) \<or> closed_at g v x"
        unfolding search_inv_def by simp
      then consider "x = c" | "x \<in> fst ` set q" | "closed_at g v x" by auto
      then show ?thesis
      proof cases
        case 1 with cov show ?thesis by simp
      next
        case 2 then show ?thesis unfolding q' by auto
      next
        case 3 then show ?thesis using sub closed_at_mono by blast
      qed
    next
      case 2 then show ?thesis unfolding q' by auto
    qed
  qed
  show ?thesis
    unfolding search_inv_def using s e old new srt near cl by (auto simp: q')
qed

lemma inv_return:
  assumes inv: "search_inv g s e ((c, path) # q, v)"
    and gr: "grows g c path e (q, v) fr1"
    and np: "np = path @ [t]" and edge: "edge_between g c t e"
  shows "connects g s np e \<and> (\<forall>r. connects g s r e \<longrightarrow> length np \<le> length r) \<and>
         distinct (path_nodes s np) \<and> entity_ends s np"
proof -
  have fresh: "e \<notin> v" using inv unfolding search_inv_def by simp
  have "reaches g s (insert e v) (e, path @ [t]) \<and> simple_entry s (insert e v) (e, path @ [t])"
    using inv edge fresh by (rule new_entry) auto
  then show ?thesis unfolding np reaches_def simple_entry_def by simp
qed

subsection \<open>The result of the search\<close>

definition found_ok :: "graph \<Rightarrow> node \<Rightarrow> node \<Rightarrow> triple list option \<Rightarrow> bool" where
  "found_ok g s e res \<longleftrightarrow>
     (case res of
        None \<Rightarrow> (\<forall>r. \<not> connects g s r e)
      | Some np \<Rightarrow>
          connects g s np e \<and> (\<forall>r. connects g s r e \<longrightarrow> length np \<le> length r) \<and>
          distinct (path_nodes s np) \<and> entity_ends s np)"

lemma predicate_objects_rows: "\<forall>(p, o') \<in> set (predicate_objects g c). (c, p, o') \<in> set g"
  by (auto simp: predicate_objects_def)

lemma subject_predicates_rows: "\<forall>(s, p) \<in> set (subject_predicates g c). (s, p, c) \<in> set g"
  by (auto simp: subject_predicates_def)

lemma predicate_objects_iff: "(p, o') \<in> set (predicate_objects g c) \<longleftrightarrow> (c, p, o') \<in> set g"
  by (force simp: predicate_objects_def)

lemma subject_predicates_iff: "(s, p) \<in> set (subject_predicates g c) \<longleftrightarrow> (s, p, c) \<in> set g"
  by (force simp: subject_predicates_def)

lemma both_phases_close:
  assumes out: "explore_out c path e (predicate_objects g c) fr = Continue fr1"
    and inn: "explore_in c path e (subject_predicates g c) fr1 = Continue fr2"
  shows "closed_at g (snd fr2) c"
  unfolding closed_at_def
proof (intro allI impI)
  fix t y assume edge: "edge_between g c t y"
  from explore_out_covers [OF out]
  have c1: "\<forall>(p, o') \<in> set (predicate_objects g c). is_URIRef o' \<longrightarrow> o' \<in> snd fr1" by simp
  from explore_in_covers [OF inn]
  have c2: "snd fr1 \<subseteq> snd fr2"
    "\<forall>(s, p) \<in> set (subject_predicates g c). is_URIRef s \<longrightarrow> s \<in> snd fr2" by simp_all
  from edge obtain p where t: "t \<in> set g" "is_URIRef y" "t = (c, p, y) \<or> t = (y, p, c)"
    unfolding edge_between_def by blast
  from t(3) show "y \<in> snd fr2"
  proof
    assume "t = (c, p, y)"
    with t(1) have "(p, y) \<in> set (predicate_objects g c)" by (simp add: predicate_objects_iff)
    with c1 t(2) have "y \<in> snd fr1" by blast
    with c2(1) show ?thesis by blast
  next
    assume "t = (y, p, c)"
    with t(1) have "(y, p) \<in> set (subject_predicates g c)" by (simp add: subject_predicates_iff)
    with c2(2) t(2) show ?thesis by blast
  qed
qed

lemma search_loop_found_ok:
  "search_inv g s e fr \<Longrightarrow> found_ok g s e (search_loop g e fr)"
proof (induction g e fr rule: search_loop.induct)
  case (1 g e v)
  then show ?case by (simp add: found_ok_def inv_empty)
next
  case (2 g e c path q v)
  note inv = "2.prems"
  show ?case
  proof (cases "explore_out c path e (predicate_objects g c) (q, v)")
    case (Return np)
    from explore_out_Return [OF predicate_objects_rows Return]
    obtain fr1 t where "grows g c path e (q, v) fr1" "np = path @ [t]" "edge_between g c t e"
      by blast
    from inv_return [OF inv this] show ?thesis using Return by (simp add: found_ok_def)
  next
    case (Continue fr1)
    note out = this
    have g1: "grows g c path e (q, v) fr1"
      using predicate_objects_rows out by (rule explore_out_grows)
    show ?thesis
    proof (cases "explore_in c path e (subject_predicates g c) fr1")
      case (Return np)
      from explore_in_Return [OF subject_predicates_rows Return]
      obtain fr2 t where "grows g c path e fr1 fr2" "np = path @ [t]" "edge_between g c t e"
        by blast
      with g1 have "grows g c path e (q, v) fr2" "np = path @ [t]" "edge_between g c t e"
        using grows_trans by blast+
      from inv_return [OF inv this] show ?thesis using out Return by (simp add: found_ok_def)
    next
      case (Continue fr2)
      note inn = this
      have g2: "grows g c path e fr1 fr2"
        using subject_predicates_rows inn by (rule explore_in_grows)
      have gr: "grows g c path e (q, v) (fst fr2, snd fr2)"
        using grows_trans [OF g1 g2] by simp
      have "closed_at g (snd fr2) c" using out inn by (rule both_phases_close)
      with inv gr have "search_inv g s e (fst fr2, snd fr2)" by (rule inv_step)
      then have "search_inv g s e fr2" by simp
      from "2.IH" [OF out inn this] show ?thesis using out inn by simp
    qed
  qed
qed

lemma find_shortest_path_found_ok: "found_ok g s e (find_shortest_path g s e)"
proof (cases "s = e")
  case True
  then show ?thesis by (simp add: find_shortest_path_def found_ok_def entity_ends_def)
next
  case False
  then have "search_inv g s e ([(s, [])], {s})" by (rule inv_init)
  then have "found_ok g s e (search_loop g e ([(s, [])], {s}))" by (rule search_loop_found_ok)
  with False show ?thesis by (simp add: find_shortest_path_def)
qed

subsection \<open>Direct edges\<close>

lemma explore_out_hits:
  assumes "(p, e) \<in> set rows" "is_URIRef e" "e \<notin> snd fr"
  shows "\<exists>p'. (p', e) \<in> set rows \<and> explore_out c path e rows fr = Return (path @ [(c, p', e)])"
  using assms
proof (induction rows arbitrary: fr)
  case Nil
  then show ?case by simp
next
  case (Cons row rows)
  obtain p1 o1 where row: "row = (p1, o1)" by (cases row)
  obtain q v where fr: "fr = (q, v)" by (cases fr)
  show ?case
  proof (cases "o1 = e")
    case True
    with Cons.prems(2,3) show ?thesis unfolding row fr by (auto simp: Let_def)
  next
    case False
    with Cons.prems(1) have mem: "(p, e) \<in> set rows" unfolding row by auto
    show ?thesis
    proof (cases "is_URIRef o1 \<and> o1 \<notin> v")
      case True
      have "e \<notin> snd (q @ [(o1, path @ [(c, p1, o1)])], insert o1 v)"
        using Cons.prems(3) False unfolding fr by auto
      from Cons.IH [OF mem Cons.prems(2) this] True False show ?thesis
        unfolding row fr by (auto simp: Let_def)
    next
      case False
      from Cons.IH [OF mem Cons.prems(2) Cons.prems(3)] False show ?thesis
        unfolding row fr by auto
    qed
  qed
qed

lemma explore_in_hits:
  assumes "(e, p) \<in> set rows" "is_URIRef e" "e \<notin> snd fr"
  shows "\<exists>p'. (e, p') \<in> set rows \<and> explore_in c path e rows fr = Return (path @ [(e, p', c)])"
  using assms
proof (induction rows arbitrary: fr)
  case Nil
  then show ?case by simp
next
  case (Cons row rows)
  obtain s1 p1 where row: "row = (s1, p1)" by (cases row)
  obtain q v where fr: "fr = (q, v)" by (cases fr)
  show ?case
  proof (cases "s1 = e")
    case True
    with Cons.prems(2,3) show ?thesis unfolding row fr by (auto simp: Let_def)
  next
    case False
    with Cons.prems(1) have mem: "(e, p) \<in> set rows" unfolding row by auto
    show ?thesis
    proof (cases "is_URIRef s1 \<and> s1 \<notin> v")
      case True
      have "e \<notin> snd (q @ [(s1, path @ [(s1, p1, c)])], insert s1 v)"
        using Cons.prems(3) False unfolding fr by auto
      from Cons.IH [OF mem Cons.prems(2) this] True False show ?thesis
        unfolding row fr by (auto simp: Let_def)
    next
      case False
      from Cons.IH [OF mem Cons.prems(2) Cons.prems(3)] False show ?thesis
        unfolding row fr by auto
    qed
  qed
qed

lemma explore_out_misses:
  assumes "\<forall>(p, o') \<in> set rows. o' \<noteq> e" "e \<notin> snd fr"
  shows "\<exists>fr'. explore_out c path e rows fr = Continue fr' \<and> e \<notin> snd fr'"
  using assms
proof (induction rows arbitrary: fr)
  case Nil
  then show ?case by (cases fr) simp
next
  case (Cons row rows)
  obtain p1 o1 where row: "row = (p1, o1)" by (cases row)
  obtain q v where fr: "fr = (q, v)" by (cases fr)
  have ne: "o1 \<noteq> e" and rows: "\<forall>(p, o') \<in> set rows. o' \<noteq> e"
    using Cons.prems(1) unfolding row by auto
  show ?case
  proof (cases "is_URIRef o1 \<and> o1 \<notin> v")
    case True
    have "e \<notin> snd (q @ [(o1, path @ [(c, p1, o1)])], insert o1 v)"
      using Cons.prems(2) ne unfolding fr by auto
    from Cons.IH [OF rows this] True ne show ?thesis
      unfolding row fr by (auto simp: Let_def)
  next
    case False
    from Cons.IH [OF rows Cons.prems(2)] False show ?thesis unfolding row fr by auto
  qed
qed

lemma connects_chain: "connects g a ts b \<Longrightarrow> chain g a ts b"
proof (induction ts arbitrary: a)
  case Nil
  then show ?case by simp
next
  case (Cons t ts)
  obtain s p o' where t: "t = (s, p, o')" by (cases t)
  from Cons.prems Cons.IH show ?case unfolding t by auto
qed

text \<open>
  Claim C1 as stated, with every chain of stored triples counted as a connection, does
  not hold: on the store \<open>blank_shortcut\<close> the search from \<open>ex_A\<close> to \<open>ex_B\<close> returns the
  three-hop path through \<open>ex_C\<close> and \<open>ex_D\<close>, although a chain of two stored triples joins
  the two entities through a blank node. The guard \<^verbatim>\<open>isinstance(o, URIRef)\<close> of both
  phases keeps blank nodes and literals out of the traversal.
\<close>

theorem shortest_over_all_chains_counterexample:
  "find_shortest_path blank_shortcut ex_A ex_B =
     Some [(ex_A, ex_rel, ex_C), (ex_C, ex_rel, ex_D), (ex_D, ex_rel, ex_B)] \<and>
   chain blank_shortcut ex_A [(ex_A, ex_rel, ex_blank), (ex_blank, ex_rel, ex_B)] ex_B \<and>
   length [(ex_A, ex_rel, ex_blank), (ex_blank, ex_rel, ex_B)]
     < length [(ex_A, ex_rel, ex_C), (ex_C, ex_rel, ex_D), (ex_D, ex_rel, ex_B)]"
proof (intro conjI)
  show "find_shortest_path blank_shortcut ex_A ex_B =
     Some [(ex_A, ex_rel, ex_C), (ex_C, ex_rel, ex_D), (ex_D, ex_rel, ex_B)]"
    by (simp add: find_shortest_path_def blank_shortcut_def predicate_objects_def
        subject_predicates_def ex_A_def ex_B_def ex_C_def ex_D_def ex_rel_def ex_blank_def)
  show "chain blank_shortcut ex_A [(ex_A, ex_rel, ex_blank), (ex_blank, ex_rel, ex_B)] ex_B"
    by (simp add: blank_shortcut_def)
  show "length [(ex_A, ex_rel, ex_blank), (ex_blank, ex_rel, ex_B)]
     < length [(ex_A, ex_rel, ex_C), (ex_C, ex_rel, ex_D), (ex_D, ex_rel, ex_B)]"
    by simp
qed

text \<open>
  Claim C1, amended. A path returned by the path search is a connection from start to
  end, and no connection from start to end has fewer hops, where a connection is a chain
  of stored triples each hop of which arrives at a URI reference; whenever such a
  connection exists, the search does return a path. In particular, when the store holds
  a triple from \<open>a\<close> to a different URI reference \<open>b\<close>, the search from \<open>a\<close> to \<open>b\<close>
  returns a one-hop path made of such a triple, whatever longer routes exist.
\<close>

theorem shortest_path_minimal:
  "(find_shortest_path g a b = Some path \<longrightarrow>
      connects g a path b \<and> (\<forall>r. connects g a r b \<longrightarrow> length path \<le> length r)) \<and>
   (connects g a r b \<longrightarrow>
      (\<exists>path'. find_shortest_path g a b = Some path' \<and> length path' \<le> length r)) \<and>
   ((a, p, b) \<in> set g \<and> a \<noteq> b \<and> is_URIRef b \<longrightarrow>
      (\<exists>p'. (a, p', b) \<in> set g \<and> find_shortest_path g a b = Some [(a, p', b)]))"
proof (intro conjI)
  show "find_shortest_path g a b = Some path \<longrightarrow>
      connects g a path b \<and> (\<forall>r. connects g a r b \<longrightarrow> length path \<le> length r)"
  proof
    assume "find_shortest_path g a b = Some path"
    with find_shortest_path_found_ok [of g a b]
    show "connects g a path b \<and> (\<forall>r. connects g a r b \<longrightarrow> length path \<le> length r)"
      by (simp add: found_ok_def)
  qed
  show "connects g a r b \<longrightarrow>
      (\<exists>path'. find_shortest_path g a b = Some path' \<and> length path' \<le> length r)"
  proof
    assume r: "connects g a r b"
    show "\<exists>path'. find_shortest_path g a b = Some path' \<and> length path' \<le> length r"
    proof (cases "find_shortest_path g a b")
      case None
      with find_shortest_path_found_ok [of g a b] have "\<not> connects g a r b"
        by (simp add: found_ok_def)
      with r show ?thesis by simp
    next
      case (Some path')
      with find_shortest_path_found_ok [of g a b] r have "length path' \<le> length r"
        by (simp add: found_ok_def)
      with Some show ?thesis by simp
    qed
  qed
  show "(a, p, b) \<in> set g \<and> a \<noteq> b \<and> is_URIRef b \<longrightarrow>
      (\<exists>p'. (a, p', b) \<in> set g \<and> find_shortest_path g a b = Some [(a, p', b)])"
  proof
    assume h: "(a, p, b) \<in> set g \<and> a \<noteq> b \<and> is_URIRef b"
    then have "(p, b) \<in> set (predicate_objects g a)" by (simp add: predicate_objects_iff)
    moreover have "b \<notin> snd (([] :: (node \<times> triple list) list), {a})" using h by auto
    ultimately obtain p' where p': "(p', b) \<in> set (predicate_objects g a)"
      "explore_out a [] b (predicate_objects g a) ([], {a}) = Return ([] @ [(a, p', b)])"
      using h explore_out_hits by blast
    then have "find_shortest_path g a b = Some [(a, p', b)]"
      using h by (simp add: find_shortest_path_def)
    with p'(1) show "\<exists>p'. (a, p', b) \<in> set g \<and> find_shortest_path g a b = Some [(a, p', b)]"
      by (auto simp: predicate_objects_iff)
  qed
qed

theorem shortest_path_minimal_witness:
  "find_shortest_path direct_and_detour ex_A ex_B = Some [(ex_A, ex_rel, ex_B)] \<and>
   connects direct_and_detour ex_A [(ex_A, ex_rel, ex_C), (ex_C, ex_rel, ex_B)] ex_B \<and>
   length [(ex_A, ex_rel, ex_B)] \<le> length [(ex_A, ex_rel, ex_C), (ex_C, ex_rel, ex_B)]"
proof -
  have edge: "(ex_A, ex_rel, ex_B) \<in> set direct_and_detour \<and> ex_A \<noteq> ex_B \<and> is_URIRef ex_B"
    by (simp add: direct_and_detour_def ex_A_def ex_B_def)
  have detour: "connects direct_and_detour ex_A [(ex_A, ex_rel, ex_C), (ex_C, ex_rel, ex_B)] ex_B"
    by (simp add: direct_and_detour_def ex_A_def ex_B_def ex_C_def)
  note inst = shortest_path_minimal [where g = direct_and_detour and a = ex_A and b = ex_B
      and path = "[(ex_A, ex_rel, ex_B)]" and p = ex_rel
      and r = "[(ex_A, ex_rel, ex_C), (ex_C, ex_rel, ex_B)]"]
  from inst edge
  obtain p' where p': "(ex_A, p', ex_B) \<in> set direct_and_detour"
    "find_shortest_path direct_and_detour ex_A ex_B = Some [(ex_A, p', ex_B)]" by blast
  from p'(1) have "p' = ex_rel"
    by (auto simp: direct_and_detour_def ex_A_def ex_B_def ex_C_def)
  with p'(2) have run: "find_shortest_path direct_and_detour ex_A ex_B = Some [(ex_A, ex_rel, ex_B)]"
    by simp
  with inst detour show ?thesis by simp
qed

text \<open>
  Claim C5. When the store holds the triple \<open>(b, rel, a)\<close>, no triple from \<open>a\<close> to \<open>b\<close> and
  no other triple from \<open>b\<close> to \<open>a\<close>, the search from \<open>a\<close> to the URI reference \<open>b\<close> returns
  the one-hop path made of \<open>(b, rel, a)\<close>, in the direction in which it is stored.
\<close>

theorem reversed_edge_found:
  assumes "(b, rel, a) \<in> set g"
    and "\<forall>p. (a, p, b) \<notin> set g"
    and "\<forall>p. (b, p, a) \<in> set g \<longrightarrow> p = rel"
    and "a \<noteq> b" and "is_URIRef b"
  shows "find_shortest_path g a b = Some [(b, rel, a)]"
proof -
  have "\<forall>(p, o') \<in> set (predicate_objects g a). o' \<noteq> b"
    using assms(2) by (auto simp: predicate_objects_iff)
  moreover have "b \<notin> snd (([] :: (node \<times> triple list) list), {a})" using assms(4) by auto
  ultimately obtain fr1 where out:
    "explore_out a [] b (predicate_objects g a) ([], {a}) = Continue fr1" "b \<notin> snd fr1"
    using explore_out_misses by blast
  have "(b, rel) \<in> set (subject_predicates g a)"
    using assms(1) by (simp add: subject_predicates_iff)
  with assms(5) out(2) obtain p' where p': "(b, p') \<in> set (subject_predicates g a)"
    "explore_in a [] b (subject_predicates g a) fr1 = Return ([] @ [(b, p', a)])"
    using explore_in_hits by blast
  from p'(1) assms(3) have "p' = rel" by (simp add: subject_predicates_iff)
  with out(1) p'(2) assms(4) show ?thesis by (simp add: find_shortest_path_def)
qed

theorem reversed_edge_found_witness:
  "find_shortest_path reversed_edge ex_A ex_B = Some [(ex_B, ex_rel, ex_A)]"
proof -
  have "(ex_B, ex_rel, ex_A) \<in> set reversed_edge"
    and "\<forall>p. (ex_A, p, ex_B) \<notin> set reversed_edge"
    and "\<forall>p. (ex_B, p, ex_A) \<in> set reversed_edge \<longrightarrow> p = ex_rel"
    and "ex_A \<noteq> ex_B" and "is_URIRef ex_B"
    by (simp_all add: reversed_edge_def ex_A_def ex_B_def)
  then show ?thesis by (rule reversed_edge_found)
qed


subsection \<open>Empty path and no path\<close>

text \<open>
  Claim C6. The search from a node to itself returns the empty path; the empty path is
  returned in no other case; and the search returns \<^verbatim>\<open>None\<close>, a value of its own and
  no error, exactly when no connection leads from start to end.
\<close>

theorem same_node_and_no_path:
  "find_shortest_path g s s = Some [] \<and>
   (find_shortest_path g s e = Some [] \<longleftrightarrow> s = e) \<and>
   (find_shortest_path g s e = None \<longleftrightarrow> (\<forall>r. \<not> connects g s r e))"
proof (intro conjI)
  show "find_shortest_path g s s = Some []" by (simp add: find_shortest_path_def)
  show "find_shortest_path g s e = Some [] \<longleftrightarrow> s = e"
  proof
    assume "find_shortest_path g s e = Some []"
    with find_shortest_path_found_ok [of g s e] show "s = e" by (simp add: found_ok_def)
  next
    assume "s = e" then show "find_shortest_path g s e = Some []"
      by (simp add: find_shortest_path_def)
  qed
  show "find_shortest_path g s e = None \<longleftrightarrow> (\<forall>r. \<not> connects g s r e)"
  proof
    assume "find_shortest_path g s e = None"
    with find_shortest_path_found_ok [of g s e] show "\<forall>r. \<not> connects g s r e"
      by (simp add: found_ok_def)
  next
    assume no: "\<forall>r. \<not> connects g s r e"
    show "find_shortest_path g s e = None"
    proof (cases "find_shortest_path g s e")
      case None then show ?thesis .
    next
      case (Some np)
      with find_shortest_path_found_ok [of g s e] have "connects g s np e"
        by (simp add: found_ok_def)
      with no show ?thesis by blast
    qed
  qed
qed


theorem same_node_and_no_path_witness:
  "find_shortest_path shared_literal ex_A ex_A = Some [] \<and>
   find_shortest_path shared_literal ex_A ex_B = None \<and>
   (\<forall>r. \<not> connects shared_literal ex_A r ex_B)"
proof -
  have "find_shortest_path shared_literal ex_A ex_B = None"
    by (simp add: find_shortest_path_def shared_literal_def predicate_objects_def
        subject_predicates_def ex_A_def ex_B_def RDFS_label_def)
  with same_node_and_no_path [of shared_literal ex_A ex_B]
    same_node_and_no_path [of shared_literal ex_A ex_A]
  show ?thesis by simp
qed


subsection \<open>Shape of a returned path\<close>

lemma path_nodes_subset:
  "set (path_nodes a ts) \<subseteq> insert a (fst ` set ts \<union> (\<lambda>t. snd (snd t)) ` set ts)"
proof (induction ts arbitrary: a)
  case Nil
  show ?case by simp
next
  case (Cons t ts)
  obtain s p o' where t: "t = (s, p, o')" by (cases t)
  from Cons.IH [of o'] Cons.IH [of s] show ?case unfolding t by (cases "s = a") auto
qed


text \<open>
  Claim C10. A path returned for a start that is a URI reference is a chain of stored
  triples from start to end, passes no node twice, and passes URI references only: the
  subject and the object of each of its triples are URI references.
\<close>

theorem returned_path_simple_chain:
  assumes "is_URIRef s" and "find_shortest_path g s e = Some path"
  shows "connects g s path e \<and> set path \<subseteq> set g \<and> distinct (path_nodes s path) \<and>
         (\<forall>n \<in> set (path_nodes s path). is_URIRef n) \<and>
         (\<forall>(s', p', o') \<in> set path. is_URIRef s' \<and> is_URIRef o')"
proof -
  from find_shortest_path_found_ok [of g s e] assms(2)
  have ok: "connects g s path e" "distinct (path_nodes s path)" "entity_ends s path"
    by (simp_all add: found_ok_def)
  have ends: "\<forall>(s', p', o') \<in> set path. is_URIRef s' \<and> is_URIRef o'"
    using ok(3) assms(1) unfolding entity_ends_def by auto
  have "\<forall>n \<in> set (path_nodes s path). is_URIRef n"
    using path_nodes_subset [of s path] ends assms(1) by fastforce
  with ok ends connects_in_graph [OF ok(1)] show ?thesis by simp
qed

theorem returned_path_simple_chain_witness:
  "find_shortest_path common_target ex_A ex_B = Some [(ex_A, ex_rel, ex_C), (ex_B, ex_rel, ex_C)] \<and>
   path_nodes ex_A [(ex_A, ex_rel, ex_C), (ex_B, ex_rel, ex_C)] = [ex_A, ex_C, ex_B] \<and>
   distinct (path_nodes ex_A [(ex_A, ex_rel, ex_C), (ex_B, ex_rel, ex_C)]) \<and>
   connects common_target ex_A [(ex_A, ex_rel, ex_C), (ex_B, ex_rel, ex_C)] ex_B"
proof -
  have uri: "is_URIRef ex_A" by (simp add: ex_A_def)
  have run: "find_shortest_path common_target ex_A ex_B =
      Some [(ex_A, ex_rel, ex_C), (ex_B, ex_rel, ex_C)]"
    by (simp add: find_shortest_path_def common_target_def predicate_objects_def
        subject_predicates_def ex_A_def ex_B_def ex_C_def ex_rel_def)
  have nodes: "path_nodes ex_A [(ex_A, ex_rel, ex_C), (ex_B, ex_rel, ex_C)] = [ex_A, ex_C, ex_B]"
    by (simp add: ex_A_def ex_B_def ex_C_def)
  from returned_path_simple_chain [OF uri run] run nodes show ?thesis by simp
qed


section \<open>The choice of the pair\<close>

text \<open>
  \<open>misses g pairs\<close> are the pairs before the first one between which the search finds a
  path that is true in a condition.
\<close>

definition misses :: "graph \<Rightarrow> (node \<times> node) list \<Rightarrow> (node \<times> node) list" where
  "misses g pairs = takeWhile (\<lambda>(a, b). \<not> path_truthy (find_shortest_path g a b)) pairs"

lemma try_pairs_calls:
  "snd (try_pairs g pairs (pf, calls)) = calls @ take (Suc (length (misses g pairs))) pairs"
  by (induction pairs arbitrary: pf calls) (auto simp: misses_def Let_def)

lemma try_pairs_result:
  "fst (try_pairs g pairs (pf, calls)) =
     (case drop (length (misses g pairs)) pairs of
        [] \<Rightarrow> (if pairs = [] then pf else find_shortest_path g (fst (last pairs)) (snd (last pairs)))
      | (a, b) # rest \<Rightarrow> find_shortest_path g a b)"
proof (induction pairs arbitrary: pf calls)
  case Nil
  show ?case by (simp add: misses_def)
next
  case (Cons pr pairs)
  obtain a b where pr: "pr = (a, b)" by (cases pr)
  show ?case
  proof (cases "path_truthy (find_shortest_path g a b)")
    case True
    then show ?thesis unfolding pr by (simp add: misses_def Let_def)
  next
    case False
    have m: "misses g ((a, b) # pairs) = (a, b) # misses g pairs"
      using False by (simp add: misses_def)
    show ?thesis
    proof (cases "pairs = []")
      case True
      with False show ?thesis unfolding pr by (simp add: misses_def Let_def)
    next
      case ne: False
      from False have "fst (try_pairs g ((a, b) # pairs) (pf, calls)) =
          fst (try_pairs g pairs (find_shortest_path g a b, calls @ [(a, b)]))"
        by (simp add: Let_def)
      also have "\<dots> = (case drop (length (misses g pairs)) pairs of
          [] \<Rightarrow> find_shortest_path g (fst (last pairs)) (snd (last pairs))
        | (a, b) # rest \<Rightarrow> find_shortest_path g a b)"
        using Cons.IH ne by simp
      finally have "fst (try_pairs g ((a, b) # pairs) (pf, calls)) =
          (case drop (length (misses g pairs)) pairs of
             [] \<Rightarrow> find_shortest_path g (fst (last pairs)) (snd (last pairs))
           | (a, b) # rest \<Rightarrow> find_shortest_path g a b)" .
      moreover have "last ((a, b) # pairs) = last pairs" using ne by simp
      ultimately show ?thesis unfolding pr m by (simp only: length_Cons drop_Suc_Cons list.simps if_False)
    
    qed
  qed
qed

lemma misses_all_falsy:
  "pr \<in> set (misses g pairs) \<Longrightarrow> \<not> path_truthy (find_shortest_path g (fst pr) (snd pr))"
  unfolding misses_def by (auto dest: set_takeWhileD)

lemma first_hit_truthy:
  "drop (length (misses g pairs)) pairs = (a, b) # rest \<Longrightarrow>
     path_truthy (find_shortest_path g a b)"
proof -
  assume d: "drop (length (misses g pairs)) pairs = (a, b) # rest"
  have "dropWhile (\<lambda>(a, b). \<not> path_truthy (find_shortest_path g a b)) pairs = (a, b) # rest"
    using d unfolding misses_def by (simp add: dropWhile_eq_drop)
  from hd_dropWhile [of "\<lambda>(a, b). \<not> path_truthy (find_shortest_path g a b)" pairs] this
  show ?thesis by auto
qed

lemma set_permutations2:
  "distinct xs \<Longrightarrow> set (permutations2 xs) = {(a, b). a \<in> set xs \<and> b \<in> set xs \<and> a \<noteq> b}"
proof (intro set_eqI iffI)
  fix pr assume d: "distinct xs" and "pr \<in> set (permutations2 xs)"
  then obtain i j where "i < length xs" "j < length xs" "j \<noteq> i" "pr = (xs ! i, xs ! j)"
    unfolding permutations2_def by auto
  with d show "pr \<in> {(a, b). a \<in> set xs \<and> b \<in> set xs \<and> a \<noteq> b}"
    by (auto simp: nth_eq_iff_index_eq)
next
  fix pr assume "distinct xs" and "pr \<in> {(a, b). a \<in> set xs \<and> b \<in> set xs \<and> a \<noteq> b}"
  then obtain a b where ab: "pr = (a, b)" "a \<in> set xs" "b \<in> set xs" "a \<noteq> b" by auto
  then obtain i j where "i < length xs" "xs ! i = a" "j < length xs" "xs ! j = b"
    by (auto simp: in_set_conv_nth)
  with ab show "pr \<in> set (permutations2 xs)"
    unfolding permutations2_def by force
qed

lemma permutations2_members:
  "(a, b) \<in> set (permutations2 xs) \<Longrightarrow> a \<in> set xs \<and> b \<in> set xs"
  unfolding permutations2_def by auto

lemma misses_exhausted:
  assumes "drop (length (misses g pairs)) pairs = []"
  shows "misses g pairs = pairs"
proof -
  have "length pairs \<le> length (misses g pairs)" using assms by simp
  moreover have "length (misses g pairs) \<le> length pairs"
    unfolding misses_def by (rule length_takeWhile_le)
  ultimately have "length (misses g pairs) = length pairs" by simp
  moreover have "misses g pairs = take (length (misses g pairs)) pairs"
    unfolding misses_def by (rule takeWhile_eq_take)
  ultimately show ?thesis by (metis order_refl take_all)
qed


text \<open>
  Claim C3. With fewer than two entities the path search is not called. With two or
  more, it is called on the pairs of \<^verbatim>\<open>permutations\<close> in their order, up to and including
  the first pair for which it returns a non-empty path, and on no pair after it; that
  path is the one kept, and when no pair has one the variable \<^verbatim>\<open>path_found\<close> ends false.
  The pairs are all ordered pairs of different entities.
\<close>

theorem pair_selection_policy:
  "(length ents < 2 \<longrightarrow> search_pairs g ents = (None, [])) \<and>
   (2 \<le> length ents \<longrightarrow>
      snd (search_pairs g ents) =
        take (Suc (length (misses g (permutations2 ents)))) (permutations2 ents) \<and>
      (\<forall>pr \<in> set (misses g (permutations2 ents)).
         \<not> path_truthy (find_shortest_path g (fst pr) (snd pr))) \<and>
      (case drop (length (misses g (permutations2 ents))) (permutations2 ents) of
         [] \<Rightarrow> \<not> path_truthy (fst (search_pairs g ents))
       | (a, b) # rest \<Rightarrow>
           path_truthy (find_shortest_path g a b) \<and>
           fst (search_pairs g ents) = find_shortest_path g a b)) \<and>
   (distinct ents \<longrightarrow>
      set (permutations2 ents) = {(a, b). a \<in> set ents \<and> b \<in> set ents \<and> a \<noteq> b})"
proof (intro conjI impI)
  assume "length ents < 2"
  then show "search_pairs g ents = (None, [])" by (simp add: search_pairs_def)
next
  assume "2 \<le> length ents"
  then show "snd (search_pairs g ents) =
      take (Suc (length (misses g (permutations2 ents)))) (permutations2 ents)"
    by (simp add: search_pairs_def try_pairs_calls)
next
  show "\<forall>pr \<in> set (misses g (permutations2 ents)).
      \<not> path_truthy (find_shortest_path g (fst pr) (snd pr))"
    using misses_all_falsy by blast
next
  assume two: "2 \<le> length ents"
  let ?pairs = "permutations2 ents"
  have res: "fst (search_pairs g ents) =
      (case drop (length (misses g ?pairs)) ?pairs of
         [] \<Rightarrow> (if ?pairs = [] then None
                else find_shortest_path g (fst (last ?pairs)) (snd (last ?pairs)))
       | (a, b) # rest \<Rightarrow> find_shortest_path g a b)"
    using two by (simp add: search_pairs_def try_pairs_result)
  show "case drop (length (misses g ?pairs)) ?pairs of
      [] \<Rightarrow> \<not> path_truthy (fst (search_pairs g ents))
    | (a, b) # rest \<Rightarrow>
        path_truthy (find_shortest_path g a b) \<and>
        fst (search_pairs g ents) = find_shortest_path g a b"
  proof (cases "drop (length (misses g ?pairs)) ?pairs")
    case Nil
    show ?thesis
    proof (cases "?pairs = []")
      case True
      with Nil res show ?thesis by simp
    next
      case False
      from misses_exhausted [OF Nil] False have "last ?pairs \<in> set (misses g ?pairs)" by simp
      from misses_all_falsy [OF this] Nil res False show ?thesis by simp
    qed
  next
    case (Cons pr rest)
    obtain a b where pr: "pr = (a, b)" by (cases pr)
    from first_hit_truthy [OF Cons [unfolded pr]] Cons res show ?thesis unfolding pr by simp
  qed
next
  assume "distinct ents"
  then show "set (permutations2 ents) = {(a, b). a \<in> set ents \<and> b \<in> set ents \<and> a \<noteq> b}"
    by (rule set_permutations2)
qed


theorem pair_selection_policy_witness:
  "snd (search_pairs common_target [ex_D, ex_A, ex_B]) =
     [(ex_D, ex_A), (ex_D, ex_B), (ex_A, ex_D), (ex_A, ex_B)] \<and>
   fst (search_pairs common_target [ex_D, ex_A, ex_B]) =
     Some [(ex_A, ex_rel, ex_C), (ex_B, ex_rel, ex_C)] \<and>
   search_pairs common_target [ex_A] = (None, [])"
proof -
  have perms: "permutations2 [ex_D, ex_A, ex_B] =
      [(ex_D, ex_A), (ex_D, ex_B), (ex_A, ex_D), (ex_A, ex_B), (ex_B, ex_D), (ex_B, ex_A)]"
    by (simp add: permutations2_def upt_rec)
  have r1: "find_shortest_path common_target ex_D ex_A = None"
    and r2: "find_shortest_path common_target ex_D ex_B = None"
    and r3: "find_shortest_path common_target ex_A ex_D = None"
    and r4: "find_shortest_path common_target ex_A ex_B =
      Some [(ex_A, ex_rel, ex_C), (ex_B, ex_rel, ex_C)]"
    by (simp_all add: find_shortest_path_def common_target_def predicate_objects_def
        subject_predicates_def ex_A_def ex_B_def ex_C_def ex_D_def ex_rel_def)
  have m: "misses common_target
      [(ex_D, ex_A), (ex_D, ex_B), (ex_A, ex_D), (ex_A, ex_B), (ex_B, ex_D), (ex_B, ex_A)] =
      [(ex_D, ex_A), (ex_D, ex_B), (ex_A, ex_D)]"
    unfolding misses_def by (simp add: r1 r2 r3 r4)
  from pair_selection_policy [of "[ex_D, ex_A, ex_B]" common_target]
    pair_selection_policy [of "[ex_A]" common_target]
  show ?thesis unfolding perms m by (simp add: r4)
qed

section \<open>Sets kept in insertion order\<close>

lemma set_set_add: "set (set_add xs x) = insert x (set xs)"
  by (auto simp: set_add_def)

lemma distinct_set_add: "distinct xs \<Longrightarrow> distinct (set_add xs x)"
  by (simp add: set_add_def)

lemma set_set_update: "set (set_update xs ys) = set xs \<union> set ys"
  unfolding set_update_def by (induction ys arbitrary: xs) (auto simp: set_set_add)

lemma distinct_set_update: "distinct xs \<Longrightarrow> distinct (set_update xs ys)"
  unfolding set_update_def by (induction ys arbitrary: xs) (auto simp: distinct_set_add)

lemma set_add_node_facts:
  "set (add_node_facts g n fs) =
     set fs \<union> {(s, p, o'). (s, p, o') \<in> set g \<and> s = n \<and> (p = RDFS_label \<or> p = RDF_type)}"
  by (auto simp: add_node_facts_def set_set_update triples_from_def)

lemma distinct_add_node_facts: "distinct fs \<Longrightarrow> distinct (add_node_facts g n fs)"
  by (simp add: add_node_facts_def distinct_set_update)

lemma set_fold_add_node_facts:
  "set (fold (add_node_facts g) ns fs) =
     set fs \<union> {(s, p, o'). (s, p, o') \<in> set g \<and> s \<in> set ns \<and> (p = RDFS_label \<or> p = RDF_type)}"
  by (induction ns arbitrary: fs) (auto simp: set_add_node_facts)

lemma distinct_fold_add_node_facts:
  "distinct fs \<Longrightarrow> distinct (fold (add_node_facts g) ns fs)"
  by (induction ns arbitrary: fs) (auto simp: distinct_add_node_facts)

section \<open>Entity identification: the synonym pass\<close>

text \<open>
  \<open>accepted rt g labels\<close>: the subjects the inner loop of the synonym pass adds for the
  labels of one entry.
\<close>

lemma value_subject_Some:
  "value_subject g q n = Some s \<Longrightarrow> (s, q, n) \<in> set g"
proof -
  assume a: "value_subject g q n = Some s"
  then obtain p o' rest where f: "filter (\<lambda>(s, p, o'). p = q \<and> o' = n) g = (s, p, o') # rest"
    unfolding value_subject_def by (auto split: list.splits)
  then have "(s, p, o') \<in> set (filter (\<lambda>(s, p, o'). p = q \<and> o' = n) g)" by simp
  then show ?thesis by auto
qed

lemma value_subject_None:
  "value_subject g q n = None \<longleftrightarrow> (\<forall>s. (s, q, n) \<notin> set g)"
proof
  assume "value_subject g q n = None"
  then have "filter (\<lambda>(s, p, o'). p = q \<and> o' = n) g = []"
    unfolding value_subject_def by (auto split: list.splits)
  then show "\<forall>s. (s, q, n) \<notin> set g" by (auto simp: filter_empty_conv)
next
  assume "\<forall>s. (s, q, n) \<notin> set g"
  then have "filter (\<lambda>(s, p, o'). p = q \<and> o' = n) g = []"
    by (auto simp: filter_empty_conv)
  then show "value_subject g q n = None" unfolding value_subject_def by simp
qed

lemma value_object_Some:
  "value_object g n q = Some o' \<Longrightarrow> (n, q, o') \<in> set g"
proof -
  assume a: "value_object g n q = Some o'"
  then obtain s p rest where f: "filter (\<lambda>(s, p, o'). s = n \<and> p = q) g = (s, p, o') # rest"
    unfolding value_object_def by (auto split: list.splits)
  then have "(s, p, o') \<in> set (filter (\<lambda>(s, p, o'). s = n \<and> p = q) g)" by simp
  then show ?thesis by auto
qed

definition accepted :: "runtime \<Rightarrow> graph \<Rightarrow> string list \<Rightarrow> node set" where
  "accepted rt g labels =
     {s. \<exists>l \<in> set labels. value_subject g RDFS_label (Literal l None None) = Some s \<and>
           truthy rt s \<and> is_URIRef s}"

lemma accepted_Nil: "accepted rt g [] = {}"
  by (simp add: accepted_def)

lemma accepted_Cons:
  "accepted rt g (l # labels) =
     {s. value_subject g RDFS_label (Literal l None None) = Some s \<and> truthy rt s \<and> is_URIRef s}
     \<union> accepted rt g labels"
  by (auto simp: accepted_def)

lemma set_add_synonym_labels:
  "set (add_synonym_labels rt g labels found) = set found \<union> accepted rt g labels"
proof (induction labels arbitrary: found)
  case Nil
  show ?case by (simp add: accepted_Nil)
next
  case (Cons l labels)
  show ?case
  proof (cases "value_subject g RDFS_label (Literal l None None)")
    case None
    then show ?thesis by (simp add: Cons.IH accepted_Cons)
  next
    case (Some s)
    then show ?thesis by (auto simp: Cons.IH accepted_Cons set_set_add)
  qed
qed

lemma set_synonym_pass:
  "set (synonym_pass rt g ql entries found) =
     set found \<union> {s. \<exists>kw labels. (kw, labels) \<in> set entries \<and> contains ql kw \<and>
                       s \<in> accepted rt g labels}"
proof (induction entries arbitrary: found)
  case Nil
  show ?case by simp
next
  case (Cons en entries)
  obtain kw labels where en: "en = (kw, labels)" by (cases en)
  show ?case
  proof (cases "contains ql kw")
    case True
    then show ?thesis unfolding en by (auto simp: Cons.IH set_add_synonym_labels)
  next
    case False
    then show ?thesis unfolding en by (auto simp: Cons.IH)
  qed
qed

lemma set_direct_pass:
  "set (direct_pass rt ql ts found) =
     set found \<union> {s. \<exists>p o'. (s, p, o') \<in> set ts \<and> is_URIRef s \<and> is_Literal o' \<and>
                       contains ql (str_lower rt (literal_value_str rt o'))}"
proof (induction ts arbitrary: found)
  case Nil
  show ?case by simp
next
  case (Cons t ts)
  obtain s p o' where t: "t = (s, p, o')" by (cases t)
  show ?case unfolding t by (auto simp: Cons.IH set_set_add Let_def)
qed

lemma truthy_URIRef: "is_URIRef s \<Longrightarrow> truthy rt s \<longleftrightarrow> str_of s \<noteq> []"
  by (cases s) simp_all

lemma in_accepted:
  "s \<in> accepted rt g labels \<longleftrightarrow>
     (\<exists>l \<in> set labels. value_subject g RDFS_label (Literal l None None) = Some s \<and>
        is_URIRef s \<and> str_of s \<noteq> [])"
  unfolding accepted_def using truthy_URIRef by blast

text \<open>
  Claim C8. The synonym pass returns exactly the subjects \<open>s\<close> for which some entry of the
  synonym table has its keyword in the lower-cased question and one of its labels
  \<open>label_text\<close> such that the exact lookup of the plain literal \<open>label_text\<close> under
  \<^verbatim>\<open>rdfs:label\<close> yields \<open>s\<close>, a URI reference that is not empty. A label that no triple
  of the store carries adds nothing and raises nothing.
\<close>

theorem synonym_pass_accepts:
  "set (synonym_pass rt g (str_lower rt q) synonym_map []) =
     {s. \<exists>(keyword, labels) \<in> set synonym_map. contains (str_lower rt q) keyword \<and>
           (\<exists>label_text \<in> set labels.
              value_subject g RDFS_label (Literal label_text None None) = Some s \<and>
              is_URIRef s \<and> str_of s \<noteq> [])} \<and>
   (\<forall>label_text. (\<forall>s. (s, RDFS_label, Literal label_text None None) \<notin> set g) \<longrightarrow>
      add_synonym_labels rt g [label_text] found = found)"
proof
  have "x \<in> set (synonym_pass rt g (str_lower rt q) synonym_map []) \<longleftrightarrow>
      (\<exists>(keyword, labels) \<in> set synonym_map. contains (str_lower rt q) keyword \<and>
           (\<exists>label_text \<in> set labels.
              value_subject g RDFS_label (Literal label_text None None) = Some x \<and>
              is_URIRef x \<and> str_of x \<noteq> []))" for x
  proof -
    have "x \<in> set (synonym_pass rt g (str_lower rt q) synonym_map []) \<longleftrightarrow>
        (\<exists>(keyword, labels) \<in> set synonym_map.
           contains (str_lower rt q) keyword \<and> x \<in> accepted rt g labels)"
      unfolding set_synonym_pass by auto
    then show ?thesis unfolding in_accepted .
  qed
  then show "set (synonym_pass rt g (str_lower rt q) synonym_map []) =
     {s. \<exists>(keyword, labels) \<in> set synonym_map. contains (str_lower rt q) keyword \<and>
           (\<exists>label_text \<in> set labels.
              value_subject g RDFS_label (Literal label_text None None) = Some s \<and>
              is_URIRef s \<and> str_of s \<noteq> [])}"
    by blast
  show "\<forall>label_text. (\<forall>s. (s, RDFS_label, Literal label_text None None) \<notin> set g) \<longrightarrow>
      add_synonym_labels rt g [label_text] found = found"
  proof (intro allI impI)
    fix label_text assume "\<forall>s. (s, RDFS_label, Literal label_text None None) \<notin> set g"
    then have "value_subject g RDFS_label (Literal label_text None None) = None"
      by (simp add: value_subject_None)
    then show "add_synonym_labels rt g [label_text] found = found" by simp
  qed
qed

theorem synonym_pass_accepts_witness:
  "synonym_pass example_runtime ontology (str_lower example_runtime probleme_question)
     synonym_map [] = [ex_fs] \<and>
   {s. \<exists>(keyword, labels) \<in> set synonym_map.
         contains (str_lower example_runtime probleme_question) keyword \<and>
         (\<exists>label_text \<in> set labels.
            value_subject ontology RDFS_label (Literal label_text None None) = Some s \<and>
            is_URIRef s \<and> str_of s \<noteq> [])} = {ex_fs} \<and>
   add_synonym_labels example_runtime ontology [''Bank conflicts L2''] [] = []"
proof -
  have run: "synonym_pass example_runtime ontology (str_lower example_runtime probleme_question)
     synonym_map [] = [ex_fs]"
    by code_simp
  have none: "\<forall>s. (s, RDFS_label, Literal ''Bank conflicts L2'' None None) \<notin> set ontology"
    by (simp add: ontology_def RDFS_label_def RDF_type_def ex_resolu_def ex_cause_def)
  from synonym_pass_accepts [of example_runtime ontology probleme_question "[]"] run none
  show ?thesis by simp
qed


section \<open>The report\<close>

lemma iterates_all_example: "iterates_all example_runtime"
  by (simp add: iterates_all_def example_runtime_def)


lemma try_pairs_source:
  "fst (try_pairs g pairs (pf, calls)) = pf \<or>
   (\<exists>a b. (a, b) \<in> set pairs \<and>
      fst (try_pairs g pairs (pf, calls)) = find_shortest_path g a b)"
proof (induction pairs arbitrary: pf calls)
  case Nil
  show ?case by simp
next
  case (Cons pr pairs)
  obtain a b where pr: "pr = (a, b)" by (cases pr)
  show ?case
  proof (cases "path_truthy (find_shortest_path g a b)")
    case True
    then have "fst (try_pairs g ((a, b) # pairs) (pf, calls)) = find_shortest_path g a b"
      by (simp add: Let_def)
    then show ?thesis unfolding pr by (intro disjI2 exI [of _ a] exI [of _ b]) simp
  next
    case False
    then have step: "try_pairs g ((a, b) # pairs) (pf, calls) =
        try_pairs g pairs (find_shortest_path g a b, calls @ [(a, b)])"
      by (simp add: Let_def)
    from Cons.IH [of "find_shortest_path g a b" "calls @ [(a, b)]"]
    show ?thesis unfolding pr step
    proof
      assume "fst (try_pairs g pairs (find_shortest_path g a b, calls @ [(a, b)])) =
          find_shortest_path g a b"
      then show "fst (try_pairs g pairs (find_shortest_path g a b, calls @ [(a, b)])) = pf \<or>
          (\<exists>a' b'. (a', b') \<in> set ((a, b) # pairs) \<and>
             fst (try_pairs g pairs (find_shortest_path g a b, calls @ [(a, b)])) =
             find_shortest_path g a' b')"
        by (intro disjI2 exI [of _ a] exI [of _ b]) simp
    next
      assume "\<exists>a' b'. (a', b') \<in> set pairs \<and>
          fst (try_pairs g pairs (find_shortest_path g a b, calls @ [(a, b)])) =
          find_shortest_path g a' b'"
      then obtain a' b' where "(a', b') \<in> set pairs"
        "fst (try_pairs g pairs (find_shortest_path g a b, calls @ [(a, b)])) =
          find_shortest_path g a' b'" by blast
      then show "fst (try_pairs g pairs (find_shortest_path g a b, calls @ [(a, b)])) = pf \<or>
          (\<exists>a' b'. (a', b') \<in> set ((a, b) # pairs) \<and>
             fst (try_pairs g pairs (find_shortest_path g a b, calls @ [(a, b)])) =
             find_shortest_path g a' b')"
        by (intro disjI2 exI [of _ a'] exI [of _ b']) simp
    qed
  qed
qed

lemma search_pairs_source:
  assumes "fst (search_pairs g ents) = Some path"
  shows "\<exists>a b. a \<in> set ents \<and> b \<in> set ents \<and> find_shortest_path g a b = Some path"
proof -
  have two: "2 \<le> length ents"
  proof (rule ccontr)
    assume "\<not> 2 \<le> length ents"
    then have "search_pairs g ents = (None, [])" by (simp add: search_pairs_def)
    with assms show False by simp
  qed
  then have "search_pairs g ents = try_pairs g (permutations2 ents) (None, [])"
    by (simp add: search_pairs_def)
  with assms have res: "fst (try_pairs g (permutations2 ents) (None, [])) = Some path" by simp
  then have "fst (try_pairs g (permutations2 ents) (None, [])) \<noteq> None" by simp
  with try_pairs_source [of g "permutations2 ents" None "[]"]
  obtain a b where ab: "(a, b) \<in> set (permutations2 ents)"
    "fst (try_pairs g (permutations2 ents) (None, [])) = find_shortest_path g a b" by blast
  from ab(2) res have "find_shortest_path g a b = Some path" by simp
  moreover from ab(1) have "a \<in> set ents \<and> b \<in> set ents" by (rule permutations2_members)
  ultimately show ?thesis by blast
qed

lemma found_path_entities:
  assumes "is_URIRef s" "find_shortest_path g s e = Some path"
  shows "\<forall>(s', p', o') \<in> set path. is_URIRef s' \<and> is_URIRef o'"
proof -
  from find_shortest_path_found_ok [of g s e] assms(2) have "entity_ends s path"
    by (simp add: found_ok_def)
  with assms(1) show ?thesis unfolding entity_ends_def by auto
qed

lemma identify_all_entities_URIRef:
  assumes "iterates_all rt" "e \<in> set (identify_all_entities rt q g)"
  shows "is_URIRef e"
proof -
  let ?ql = "str_lower rt q"
  let ?found = "direct_pass rt ?ql (triples_with_predicate g RDFS_label)
                  (synonym_pass rt g ?ql synonym_map [])"
  from assms have "e \<in> set ?found"
    unfolding identify_all_entities_def iterates_all_def by (simp add: Let_def)
  then show ?thesis
    unfolding set_direct_pass set_synonym_pass accepted_def by auto
qed

text \<open>
  Claim C7. When the resolver finds no entity, \<^verbatim>\<open>find_reasoning_path\<close> returns the report
  with the question and three empty lists; it raises nothing, and neither the path
  search nor the collection of facts takes part in the result.
\<close>

theorem no_entities_empty_report:
  assumes "identify_all_entities rt q g = []"
  shows "find_reasoning_path rt q g =
           Inr \<lparr>question = q, entites_initiales = [], chemin_trouve = [], faits_deduits = []\<rparr>"
  using assms by (simp add: find_reasoning_path_def)

theorem no_entities_empty_report_witness:
  "identify_all_entities example_runtime ''Bonjour'' ontology = [] \<and>
   find_reasoning_path example_runtime ''Bonjour'' ontology =
     Inr \<lparr>question = ''Bonjour'', entites_initiales = [], chemin_trouve = [],
          faits_deduits = []\<rparr>"
proof -
  have none: "identify_all_entities example_runtime ''Bonjour'' ontology = []"
    by code_simp
  from no_entities_empty_report [OF none] none show ?thesis by simp
qed

subsection \<open>Facts along a path\<close>

lemma nodes_in_path_subjects_objects:
  "set (nodes_in_path path) =
     fst ` set path \<union> {n \<in> (\<lambda>t. snd (snd t)) ` set path. is_URIRef n}"
proof -
  have a: "(\<lambda>(s, p, o'). s) = (fst :: triple \<Rightarrow> node)" by (simp add: fun_eq_iff)
  have b: "(\<lambda>(s, p, o'). o') = (\<lambda>t :: triple. snd (snd t))" by (simp add: fun_eq_iff)
  show ?thesis
    unfolding nodes_in_path_def set_set_update a b by auto
qed


text \<open>
  Claim C2. When the pair loop ends with a non-empty path, the collected facts are
  exactly the triples of the path together with the \<^verbatim>\<open>rdfs:label\<close> and \<^verbatim>\<open>rdf:type\<close>
  triples of the store whose subject is a subject or an object of a path triple; all
  these subjects and objects are URI references; and no triple is collected twice.
\<close>

theorem path_regime_facts:
  assumes "iterates_all rt"
    and "fst (search_pairs g (identify_all_entities rt q g)) = Some path"
    and "path \<noteq> []"
  shows "set (collect_facts rt g (identify_all_entities rt q g) (Some path)) =
           set path \<union>
           {(s, p, o'). (s, p, o') \<in> set g \<and>
              s \<in> fst ` set path \<union> (\<lambda>t. snd (snd t)) ` set path \<and>
              (p = RDFS_label \<or> p = RDF_type)} \<and>
         distinct (collect_facts rt g (identify_all_entities rt q g) (Some path)) \<and>
         (\<forall>(s', p', o'') \<in> set path. is_URIRef s' \<and> is_URIRef o'')"
proof -
  let ?ents = "identify_all_entities rt q g"
  from search_pairs_source [OF assms(2)] obtain a b where
    ab: "a \<in> set ?ents" "find_shortest_path g a b = Some path" by blast
  from identify_all_entities_URIRef [OF assms(1) ab(1)] have "is_URIRef a" .
  from found_path_entities [OF this ab(2)]
  have uris: "\<forall>(s', p', o'') \<in> set path. is_URIRef s' \<and> is_URIRef o''" .
  obtain t ts where path: "path = t # ts" using assms(3) by (cases path) auto
  have n1: "set (node_set_order rt (nodes_in_path path)) = set (nodes_in_path path)"
    using assms(1) unfolding iterates_all_def by blast
  have "{n \<in> (\<lambda>t. snd (snd t)) ` set path. is_URIRef n} = (\<lambda>t. snd (snd t)) ` set path"
    using uris by fastforce
  then have n2: "set (nodes_in_path path) = fst ` set path \<union> (\<lambda>t. snd (snd t)) ` set path"
    unfolding nodes_in_path_subjects_objects by simp
  have cf: "collect_facts rt g ?ents (Some path) =
      fold (add_node_facts g) (node_set_order rt (nodes_in_path path)) (set_update [] path)"
    unfolding path by (simp add: collect_facts_def)
  have "set (collect_facts rt g ?ents (Some path)) =
      set path \<union>
      {(s, p, o'). (s, p, o') \<in> set g \<and>
         s \<in> fst ` set path \<union> (\<lambda>t. snd (snd t)) ` set path \<and>
         (p = RDFS_label \<or> p = RDF_type)}"
    unfolding cf set_fold_add_node_facts n1 n2 set_set_update by simp
  moreover have "distinct (collect_facts rt g ?ents (Some path))"
    unfolding cf by (intro distinct_fold_add_node_facts distinct_set_update) simp
  ultimately show ?thesis using uris by simp
qed

theorem path_regime_facts_witness:
  "identify_all_entities example_runtime link_question ontology = [ex_fs, ex_cla] \<and>
   fst (search_pairs ontology [ex_fs, ex_cla]) = Some [(ex_fs, ex_resolu, ex_cla)] \<and>
   set (collect_facts example_runtime ontology [ex_fs, ex_cla]
          (Some [(ex_fs, ex_resolu, ex_cla)])) =
     {(ex_fs, ex_resolu, ex_cla),
      (ex_fs, RDFS_label, Literal ''False sharing'' None None),
      (ex_fs, RDF_type, ex_class),
      (ex_cla, RDFS_label, Literal ''Cache line alignment'' None None),
      (ex_cla, RDF_type, ex_class)}"
proof -
  have ents: "identify_all_entities example_runtime link_question ontology = [ex_fs, ex_cla]"
    by code_simp
  have path: "fst (search_pairs ontology [ex_fs, ex_cla]) = Some [(ex_fs, ex_resolu, ex_cla)]"
    by code_simp
  have path': "fst (search_pairs ontology (identify_all_entities example_runtime link_question
      ontology)) = Some [(ex_fs, ex_resolu, ex_cla)]"
    unfolding ents by (rule path)
  have ne: "[(ex_fs, ex_resolu, ex_cla)] \<noteq> []" by simp
  have "set (collect_facts example_runtime ontology
          (identify_all_entities example_runtime link_question ontology)
          (Some [(ex_fs, ex_resolu, ex_cla)])) =
     set [(ex_fs, ex_resolu, ex_cla)] \<union>
     {(s, p, o'). (s, p, o') \<in> set ontology \<and>
        s \<in> fst ` set [(ex_fs, ex_resolu, ex_cla)] \<union>
            (\<lambda>t. snd (snd t)) ` set [(ex_fs, ex_resolu, ex_cla)] \<and>
        (p = RDFS_label \<or> p = RDF_type)}"
    using path_regime_facts [OF iterates_all_example path' ne] by (rule conjunct1)
  also have "\<dots> = {(ex_fs, ex_resolu, ex_cla),
      (ex_fs, RDFS_label, Literal ''False sharing'' None None),
      (ex_fs, RDF_type, ex_class),
      (ex_cla, RDFS_label, Literal ''Cache line alignment'' None None),
      (ex_cla, RDF_type, ex_class)}"
    by (auto simp: ontology_def RDFS_label_def RDF_type_def ex_resolu_def ex_cause_def
        ex_fs_def ex_cla_def ex_class_def)
  finally have "set (collect_facts example_runtime ontology [ex_fs, ex_cla]
          (Some [(ex_fs, ex_resolu, ex_cla)])) =
     {(ex_fs, ex_resolu, ex_cla),
      (ex_fs, RDFS_label, Literal ''False sharing'' None None),
      (ex_fs, RDF_type, ex_class),
      (ex_cla, RDFS_label, Literal ''Cache line alignment'' None None),
      (ex_cla, RDF_type, ex_class)}"
    unfolding ents .
  with ents path show ?thesis by (intro conjI)
qed


subsection \<open>Facts around a single entity\<close>

lemma get_node_label_total:
  assumes "\<forall>(s, p, o') \<in> set g. p = RDFS_label \<longrightarrow> is_Literal o'"
  shows "\<exists>l. get_node_label rt g n = Inr l"
proof (cases "value_object g n RDFS_label")
  case None
  then show ?thesis by (simp add: get_node_label_def)
next
  case (Some label)
  from value_object_Some [OF Some] assms have "is_Literal label" by blast
  with Some show ?thesis by (simp add: get_node_label_def)
qed

lemma map_result_total:
  assumes "\<forall>x \<in> set xs. \<exists>y. f x = Inr y"
  shows "\<exists>ys. map_result f xs = Inr ys"
  using assms
proof (induction xs)
  case Nil
  show ?case by simp
next
  case (Cons x xs)
  from Cons.prems obtain y where y: "f x = Inr y" by auto
  from Cons.IH Cons.prems obtain ys where ys: "map_result f xs = Inr ys" by auto
  show ?case by (simp add: y ys)
qed

lemma format_fact_total:
  assumes "\<forall>(s, p, o') \<in> set g. p = RDFS_label \<longrightarrow> is_Literal o'"
  shows "\<exists>l. format_fact rt g t = Inr l"
proof -
  obtain s p o' where t: "t = (s, p, o')" by (cases t)
  from get_node_label_total [OF assms] obtain ls lp lo where
    "get_node_label rt g s = Inr ls" "get_node_label rt g p = Inr lp"
    "get_node_label rt g o' = Inr lo" by metis
  then show ?thesis unfolding t by (simp add: format_fact_def)
qed

lemma single_entity_run:
  assumes "identify_all_entities rt q g = [e]"
  shows "find_reasoning_path rt q g =
     (case map_result (format_fact rt g)
             (triple_set_order rt (collect_facts rt g [e] (fst (search_pairs g [e])))) of
        Inl err \<Rightarrow> Inl err
      | Inr formatted_facts \<Rightarrow>
          (case map_result (get_node_label rt g) [e] of
             Inl err \<Rightarrow> Inl err
           | Inr labels \<Rightarrow>
               Inr \<lparr>question = q, entites_initiales = labels, chemin_trouve = [],
                    faits_deduits = formatted_facts\<rparr>))"
proof -
  have "fst (search_pairs g [e]) = None" by (simp add: search_pairs_def)
  then show ?thesis
    unfolding find_reasoning_path_def assms Let_def by (simp split: sum.splits)
qed


text \<open>
  Claim C4. When the resolver returns exactly one entity, the path search is not called,
  the collected facts are exactly the triples of the store whose subject is that entity,
  each once, and a report that is returned has an empty path list and, as facts, the
  rendering of those triples. A report is returned whenever every \<^verbatim>\<open>rdfs:label\<close> of the
  store is a literal.
\<close>

theorem single_entity_report:
  assumes "identify_all_entities rt q g = [e]"
  shows "snd (search_pairs g [e]) = [] \<and>
         set (collect_facts rt g [e] (fst (search_pairs g [e]))) = {t \<in> set g. fst t = e} \<and>
         distinct (collect_facts rt g [e] (fst (search_pairs g [e]))) \<and>
         (\<forall>r. find_reasoning_path rt q g = Inr r \<longrightarrow>
            chemin_trouve r = [] \<and>
            map_result (format_fact rt g)
              (triple_set_order rt (collect_facts rt g [e] (fst (search_pairs g [e]))))
              = Inr (faits_deduits r)) \<and>
         ((\<forall>(s, p, o') \<in> set g. p = RDFS_label \<longrightarrow> is_Literal o') \<longrightarrow>
            (\<exists>r. find_reasoning_path rt q g = Inr r))"
proof -
  have sp: "search_pairs g [e] = (None, [])" by (simp add: search_pairs_def)
  have cf: "collect_facts rt g [e] None = set_update [] (triples_from g e)"
    by (simp add: collect_facts_def)
  have facts: "set (collect_facts rt g [e] None) = {t \<in> set g. fst t = e}"
  proof -
    have "(\<lambda>(s, p, o'). s = e) = (\<lambda>t :: triple. fst t = e)" by (simp add: fun_eq_iff)
    then show ?thesis unfolding cf set_set_update triples_from_def by simp
  qed
  have dist: "distinct (collect_facts rt g [e] None)"
    unfolding cf by (rule distinct_set_update) simp
  note run = single_entity_run [OF assms, unfolded sp fst_conv]
  have rep: "\<forall>r. find_reasoning_path rt q g = Inr r \<longrightarrow>
      chemin_trouve r = [] \<and>
      map_result (format_fact rt g) (triple_set_order rt (collect_facts rt g [e] None))
        = Inr (faits_deduits r)"
  proof (intro allI impI)
    fix r assume r: "find_reasoning_path rt q g = Inr r"
    show "chemin_trouve r = [] \<and>
      map_result (format_fact rt g) (triple_set_order rt (collect_facts rt g [e] None))
        = Inr (faits_deduits r)"
    proof (cases "map_result (format_fact rt g)
        (triple_set_order rt (collect_facts rt g [e] None))")
      case (Inl err)
      with r show ?thesis unfolding run by simp
    next
      case ff: (Inr formatted_facts)
      show ?thesis
      proof (cases "map_result (get_node_label rt g) [e]")
        case (Inl err)
        with r ff show ?thesis unfolding run by simp
      next
        case (Inr labels)
        with r ff have "r = \<lparr>question = q, entites_initiales = labels, chemin_trouve = [],
            faits_deduits = formatted_facts\<rparr>" unfolding run by simp
        with ff show ?thesis by simp
      qed
    qed
  qed
  have tot: "(\<forall>(s, p, o') \<in> set g. p = RDFS_label \<longrightarrow> is_Literal o') \<longrightarrow>
      (\<exists>r. find_reasoning_path rt q g = Inr r)"
  proof
    assume lit: "\<forall>(s, p, o') \<in> set g. p = RDFS_label \<longrightarrow> is_Literal o'"
    have "\<forall>t \<in> set (triple_set_order rt (collect_facts rt g [e] None)).
        \<exists>l. format_fact rt g t = Inr l"
      using format_fact_total [OF lit] by blast
    then have "\<exists>ff. map_result (format_fact rt g)
        (triple_set_order rt (collect_facts rt g [e] None)) = Inr ff"
      by (rule map_result_total)
    then obtain ff where "map_result (format_fact rt g)
        (triple_set_order rt (collect_facts rt g [e] None)) = Inr ff" ..
    moreover have "\<forall>n \<in> set [e]. \<exists>l. get_node_label rt g n = Inr l"
      using get_node_label_total [OF lit] by blast
    then have "\<exists>ls. map_result (get_node_label rt g) [e] = Inr ls"
      by (rule map_result_total)
    then obtain ls where "map_result (get_node_label rt g) [e] = Inr ls" ..
    ultimately show "\<exists>r. find_reasoning_path rt q g = Inr r" unfolding run by simp
  qed
  show ?thesis unfolding sp fst_conv snd_conv
    by (intro conjI refl facts dist rep tot)
qed

theorem single_entity_report_witness:
  "identify_all_entities example_runtime alignment_question ontology = [ex_cla] \<and>
   find_reasoning_path example_runtime alignment_question ontology =
     Inr \<lparr>question = alignment_question,
          entites_initiales = [''Cache line alignment''],
          chemin_trouve = [],
          faits_deduits =
            [''Cache line alignment --[label]--> '' @ [CHR 0x22] @ ''Cache line alignment''
               @ [CHR 0x22],
             ''Cache line alignment --[type]--> Concept'']\<rparr> \<and>
   set (collect_facts example_runtime ontology [ex_cla]
          (fst (search_pairs ontology [ex_cla]))) =
     set [(ex_cla, RDFS_label, Literal ''Cache line alignment'' None None),
          (ex_cla, RDF_type, ex_class)]"
proof -
  have ents: "identify_all_entities example_runtime alignment_question ontology = [ex_cla]"
    by code_simp
  have run: "find_reasoning_path example_runtime alignment_question ontology =
     Inr \<lparr>question = alignment_question,
          entites_initiales = [''Cache line alignment''],
          chemin_trouve = [],
          faits_deduits =
            [''Cache line alignment --[label]--> '' @ [CHR 0x22] @ ''Cache line alignment''
               @ [CHR 0x22],
             ''Cache line alignment --[type]--> Concept'']\<rparr>"
    by code_simp
  have out: "filter (\<lambda>t. fst t = ex_cla) ontology =
      [(ex_cla, RDFS_label, Literal ''Cache line alignment'' None None),
       (ex_cla, RDF_type, ex_class)]"
    by code_simp
  have "set (collect_facts example_runtime ontology [ex_cla]
          (fst (search_pairs ontology [ex_cla]))) = {t \<in> set ontology. fst t = ex_cla}"
    using single_entity_report [OF ents] by (elim conjE)
  also have "\<dots> = set (filter (\<lambda>t. fst t = ex_cla) ontology)" by (simp only: set_filter)
  finally have "set (collect_facts example_runtime ontology [ex_cla]
          (fst (search_pairs ontology [ex_cla]))) =
     set [(ex_cla, RDFS_label, Literal ''Cache line alignment'' None None),
          (ex_cla, RDF_type, ex_class)]"
    unfolding out .
  with ents run show ?thesis by (intro conjI)
qed

section \<open>Two runs on the same question and store\<close>

text \<open>
  A run depends on the runtime through the values of typed literals, through
  \<^verbatim>\<open>str.lower\<close>, and through the order in which its three sets are iterated: the
  entities found, the nodes of the path, the facts.
\<close>

subsection \<open>Renderings of a list\<close>

lemma map_result_Inr_iff:
  fixes f :: "'a \<Rightarrow> py_error + 'b"
  shows "map_result f xs = Inr ys \<longleftrightarrow> map f xs = map Inr ys"
proof (induction xs arbitrary: ys)
  case Nil
  show ?case by auto
next
  case (Cons x xs)
  show ?case
  proof (cases "f x")
    case (Inl e)
    then show ?thesis by (cases ys) auto
  next
    case fx: (Inr y)
    show ?thesis
    proof (cases "map_result f xs")
      case (Inl e)
      have "map f xs \<noteq> map Inr zs" for zs using Cons.IH [of zs] Inl by simp
      with fx Inl show ?thesis by (cases ys) auto
    next
      case (Inr zs)
      with Cons.IH [of zs] have m: "map f xs = map Inr zs" by simp
      have "(map Inr zs :: (py_error + 'b) list) = map Inr zs' \<longleftrightarrow> zs = zs'" for zs'
        by (simp add: inj_map_eq_map)
      with fx Inr m show ?thesis by (cases ys) auto
    qed
  qed
qed

lemma map_result_set:
  assumes "map_result f xs = Inr ys"
  shows "Inr ` set ys = f ` set xs"
proof -
  from assms have "map f xs = map Inr ys" by (simp add: map_result_Inr_iff)
  then have "set (map f xs) = set (map Inr ys)" by simp
  then show ?thesis by simp
qed

lemma map_result_same_set:
  fixes f :: "'a \<Rightarrow> py_error + 'b"
  assumes "map_result f xs = Inr ys" "map_result f xs' = Inr ys'" "set xs = set xs'"
  shows "set ys = set ys'"
proof -
  have "(Inr ` set ys :: (py_error + 'b) set) = Inr ` set ys'"
    using map_result_set [OF assms(1)] map_result_set [OF assms(2)] assms(3) by simp
  then show ?thesis by (simp add: inj_image_eq_iff)
qed

lemma truthy_cong:
  assumes "typed_truthy rt = typed_truthy rt'"
  shows "truthy rt n = truthy rt' n"
proof (cases n)
  case (Literal l lang dt)
  then show ?thesis using assms by (cases dt) simp_all
qed simp_all

lemma literal_value_str_cong:
  assumes "typed_value_str rt = typed_value_str rt'"
  shows "literal_value_str rt n = literal_value_str rt' n"
proof (cases n)
  case (Literal l lang dt)
  then show ?thesis using assms by (cases dt) simp_all
qed simp_all

lemma get_node_label_cong:
  assumes "typed_value_str rt = typed_value_str rt'" "typed_truthy rt = typed_truthy rt'"
  shows "get_node_label rt g = get_node_label rt' g"
proof
  fix n
  have t: "truthy rt = truthy rt'" using truthy_cong [OF assms(2)] by (simp add: fun_eq_iff)
  have l: "literal_value_str rt = literal_value_str rt'"
    using literal_value_str_cong [OF assms(1)] by (simp add: fun_eq_iff)
  show "get_node_label rt g n = get_node_label rt' g n"
    unfolding get_node_label_def t l ..
qed

lemma format_cong:
  assumes "typed_value_str rt = typed_value_str rt'" "typed_truthy rt = typed_truthy rt'"
  shows "format_fact rt g = format_fact rt' g" and "format_edge rt g = format_edge rt' g"
proof -
  note h = get_node_label_cong [OF assms, of g]
  show "format_fact rt g = format_fact rt' g"
  proof
    fix t show "format_fact rt g t = format_fact rt' g t" unfolding format_fact_def h ..
  qed
  show "format_edge rt g = format_edge rt' g"
  proof
    fix t show "format_edge rt g t = format_edge rt' g t" unfolding format_edge_def h ..
  qed
qed

lemma collect_facts_set_cong:
  assumes "iterates_all rt" "iterates_all rt'"
  shows "set (collect_facts rt g ents pf) = set (collect_facts rt' g ents pf)"
proof (cases pf)
  case None
  then show ?thesis by (simp add: collect_facts_def)
next
  case (Some path)
  show ?thesis
  proof (cases path)
    case Nil
    with Some show ?thesis by (simp add: collect_facts_def)
  next
    case (Cons t ts)
    have a: "set (node_set_order rt (nodes_in_path (t # ts))) = set (nodes_in_path (t # ts))"
      and b: "set (node_set_order rt' (nodes_in_path (t # ts))) = set (nodes_in_path (t # ts))"
      using assms unfolding iterates_all_def by blast+
    have c: "collect_facts r g ents (Some (t # ts)) =
        fold (add_node_facts g) (node_set_order r (nodes_in_path (t # ts)))
          (set_update [] (t # ts))" for r
      by (simp add: collect_facts_def)
    show ?thesis unfolding Some Cons c set_fold_add_node_facts a b ..
  qed
qed

lemma map_result_returns_iff:
  fixes f :: "'a \<Rightarrow> py_error + 'b"
  shows "(\<exists>ys. map_result f xs = Inr ys) \<longleftrightarrow> (\<forall>x \<in> set xs. \<exists>y. f x = Inr y)"
proof
  assume "\<exists>ys. map_result f xs = Inr ys"
  then obtain ys where "map_result f xs = Inr ys" ..
  then have eq: "Inr ` set ys = f ` set xs" by (rule map_result_set)
  show "\<forall>x \<in> set xs. \<exists>y. f x = Inr y"
  proof
    fix x assume "x \<in> set xs"
    then have "f x \<in> Inr ` set ys" unfolding eq by (rule imageI)
    then show "\<exists>y. f x = Inr y" by auto
  qed
next
  assume "\<forall>x \<in> set xs. \<exists>y. f x = Inr y"
  then show "\<exists>ys. map_result f xs = Inr ys" by (rule map_result_total)
qed

lemma triple_set_order_Nil: "iterates_all rt \<Longrightarrow> triple_set_order rt [] = []"
proof -
  assume "iterates_all rt"
  then have "set (triple_set_order rt []) = set []" unfolding iterates_all_def by blast
  then show ?thesis by simp
qed

lemma all_facts_triplets_Nil:
  "identify_all_entities rt q g = [] \<Longrightarrow> all_facts_triplets rt q g = []"
  by (simp add: all_facts_triplets_def search_pairs_def collect_facts_def)


subsection \<open>The fields of a returned report\<close>

text \<open>The path lines of the report, from the variable \<^verbatim>\<open>path_found\<close>.\<close>

definition path_lines :: "runtime \<Rightarrow> graph \<Rightarrow> triple list option \<Rightarrow> py_error + string list" where
  "path_lines rt g path_found =
     (case path_found of
        Some (t # ts) \<Rightarrow> map_result (format_edge rt g) (t # ts)
      | _ \<Rightarrow> Inr [])"


lemma find_reasoning_path_unfold:
  "find_reasoning_path rt q g =
     (if identify_all_entities rt q g = [] then
        Inr \<lparr>question = q, entites_initiales = [], chemin_trouve = [], faits_deduits = []\<rparr>
      else
        (case map_result (format_fact rt g) (triple_set_order rt (all_facts_triplets rt q g)) of
           Inl e \<Rightarrow> Inl e
         | Inr formatted_facts \<Rightarrow>
             (case path_lines rt g (fst (search_pairs g (identify_all_entities rt q g))) of
                Inl e \<Rightarrow> Inl e
              | Inr formatted_path \<Rightarrow>
                  (case map_result (get_node_label rt g) (identify_all_entities rt q g) of
                     Inl e \<Rightarrow> Inl e
                   | Inr labels \<Rightarrow>
                       Inr \<lparr>question = q, entites_initiales = labels,
                            chemin_trouve = formatted_path,
                            faits_deduits = formatted_facts\<rparr>))))"
  unfolding find_reasoning_path_def all_facts_triplets_def path_lines_def Let_def ..

lemma report_fields:
  assumes ia: "iterates_all rt" and r: "find_reasoning_path rt q g = Inr r"
  shows "map_result (format_fact rt g) (triple_set_order rt (all_facts_triplets rt q g))
           = Inr (faits_deduits r) \<and>
         path_lines rt g (fst (search_pairs g (identify_all_entities rt q g)))
           = Inr (chemin_trouve r) \<and>
         map_result (get_node_label rt g) (identify_all_entities rt q g)
           = Inr (entites_initiales r)"
proof (cases "identify_all_entities rt q g = []")
  case True
  with r have "r = \<lparr>question = q, entites_initiales = [], chemin_trouve = [],
      faits_deduits = []\<rparr>"
    unfolding find_reasoning_path_unfold by simp
  then show ?thesis
    using True triple_set_order_Nil [OF ia] all_facts_triplets_Nil [OF True]
    by (simp add: path_lines_def search_pairs_def)
next
  case False
  note run = r [unfolded find_reasoning_path_unfold]
  show ?thesis
  proof (cases "map_result (format_fact rt g)
      (triple_set_order rt (all_facts_triplets rt q g))")
    case (Inl e)
    with run False show ?thesis by simp
  next
    case ff: (Inr formatted_facts)
    show ?thesis
    proof (cases "path_lines rt g (fst (search_pairs g (identify_all_entities rt q g)))")
      case (Inl e)
      with run False ff show ?thesis by simp
    next
      case fp: (Inr formatted_path)
      show ?thesis
      proof (cases "map_result (get_node_label rt g) (identify_all_entities rt q g)")
        case (Inl e)
        with run False ff fp show ?thesis by simp
      next
        case (Inr labels)
        with run False ff fp have "r = \<lparr>question = q, entites_initiales = labels,
            chemin_trouve = formatted_path, faits_deduits = formatted_facts\<rparr>" by simp
        with ff fp Inr show ?thesis by simp
      qed
    qed
  qed
qed

lemma report_returned_iff:
  assumes ia: "iterates_all rt"
  shows "(\<exists>r. find_reasoning_path rt q g = Inr r) \<longleftrightarrow>
     (\<exists>a. map_result (format_fact rt g) (triple_set_order rt (all_facts_triplets rt q g))
            = Inr a) \<and>
     (\<exists>b. path_lines rt g (fst (search_pairs g (identify_all_entities rt q g))) = Inr b) \<and>
     (\<exists>c. map_result (get_node_label rt g) (identify_all_entities rt q g) = Inr c)"
proof
  assume "\<exists>r. find_reasoning_path rt q g = Inr r"
  then obtain r where "find_reasoning_path rt q g = Inr r" ..
  from report_fields [OF ia this] show "(\<exists>a. map_result (format_fact rt g)
      (triple_set_order rt (all_facts_triplets rt q g)) = Inr a) \<and>
     (\<exists>b. path_lines rt g (fst (search_pairs g (identify_all_entities rt q g))) = Inr b) \<and>
     (\<exists>c. map_result (get_node_label rt g) (identify_all_entities rt q g) = Inr c)"
    by blast
next
  assume "(\<exists>a. map_result (format_fact rt g)
      (triple_set_order rt (all_facts_triplets rt q g)) = Inr a) \<and>
     (\<exists>b. path_lines rt g (fst (search_pairs g (identify_all_entities rt q g))) = Inr b) \<and>
     (\<exists>c. map_result (get_node_label rt g) (identify_all_entities rt q g) = Inr c)"
  then obtain a b c where
    "map_result (format_fact rt g) (triple_set_order rt (all_facts_triplets rt q g)) = Inr a"
    "path_lines rt g (fst (search_pairs g (identify_all_entities rt q g))) = Inr b"
    "map_result (get_node_label rt g) (identify_all_entities rt q g) = Inr c" by blast
  then show "\<exists>r. find_reasoning_path rt q g = Inr r"
    unfolding find_reasoning_path_unfold by simp
qed

lemma iterates_all_reversing: "iterates_all reversing_runtime"
  by (simp add: iterates_all_def reversing_runtime_def)

lemma iterates_all_facts_reversed: "iterates_all facts_reversed_runtime"
  by (simp add: iterates_all_def facts_reversed_runtime_def example_runtime_def)


text \<open>
  Claim C9 as stated does not hold for every order in which a Python set may be
  iterated: on the store \<open>two_topics\<close>, whose two entities no path joins, a run that
  iterates the set of found entities in insertion order collects the facts of the first
  entity, and a run that iterates it in reverse order collects the facts of the other
  one; both runtimes visit exactly the elements of each set. In the second run the facts
  are moreover reported in the reverse of their insertion order: the report follows the
  iteration order of the set \<^verbatim>\<open>all_facts_triplets\<close>, which Python does not tie to
  insertion.
\<close>

theorem reports_differ_with_set_order_counterexample:
  "iterates_all example_runtime \<and> iterates_all reversing_runtime \<and>
   find_reasoning_path example_runtime link_question two_topics =
     Inr \<lparr>question = link_question,
          entites_initiales = [''False sharing'', ''Cache line alignment''],
          chemin_trouve = [],
          faits_deduits =
            [''False sharing --[label]--> '' @ [CHR 0x22] @ ''False sharing'' @ [CHR 0x22],
             ''False sharing --[cause]--> '' @ [CHR 0x22] @ ''perte de performance''
               @ [CHR 0x22]]\<rparr> \<and>
   find_reasoning_path reversing_runtime link_question two_topics =
     Inr \<lparr>question = link_question,
          entites_initiales = [''Cache line alignment'', ''False sharing''],
          chemin_trouve = [],
          faits_deduits =
            [''Cache line alignment --[type]--> Concept'',
             ''Cache line alignment --[label]--> '' @ [CHR 0x22] @ ''Cache line alignment''
               @ [CHR 0x22]]\<rparr> \<and>
   all_facts_triplets example_runtime link_question two_topics =
     [(ex_fs, RDFS_label, Literal ''False sharing'' None None),
      (ex_fs, ex_cause, Literal ''perte de performance'' None None)] \<and>
   all_facts_triplets reversing_runtime link_question two_topics =
     [(ex_cla, RDFS_label, Literal ''Cache line alignment'' None None),
      (ex_cla, RDF_type, ex_class)] \<and>
   set (all_facts_triplets example_runtime link_question two_topics) \<noteq>
     set (all_facts_triplets reversing_runtime link_question two_topics)"
proof -
  have a: "find_reasoning_path example_runtime link_question two_topics =
     Inr \<lparr>question = link_question,
          entites_initiales = [''False sharing'', ''Cache line alignment''],
          chemin_trouve = [],
          faits_deduits =
            [''False sharing --[label]--> '' @ [CHR 0x22] @ ''False sharing'' @ [CHR 0x22],
             ''False sharing --[cause]--> '' @ [CHR 0x22] @ ''perte de performance''
               @ [CHR 0x22]]\<rparr>"
    by code_simp
  have b: "find_reasoning_path reversing_runtime link_question two_topics =
     Inr \<lparr>question = link_question,
          entites_initiales = [''Cache line alignment'', ''False sharing''],
          chemin_trouve = [],
          faits_deduits =
            [''Cache line alignment --[type]--> Concept'',
             ''Cache line alignment --[label]--> '' @ [CHR 0x22] @ ''Cache line alignment''
               @ [CHR 0x22]]\<rparr>"
    by code_simp
  have c: "all_facts_triplets example_runtime link_question two_topics =
     [(ex_fs, RDFS_label, Literal ''False sharing'' None None),
      (ex_fs, ex_cause, Literal ''perte de performance'' None None)]"
    by code_simp
  have d: "all_facts_triplets reversing_runtime link_question two_topics =
     [(ex_cla, RDFS_label, Literal ''Cache line alignment'' None None),
      (ex_cla, RDF_type, ex_class)]"
    by code_simp
  have e: "set (all_facts_triplets example_runtime link_question two_topics) \<noteq>
     set (all_facts_triplets reversing_runtime link_question two_topics)"
  proof -
    have "(ex_fs, RDFS_label, Literal ''False sharing'' None None)
        \<in> set (all_facts_triplets example_runtime link_question two_topics)"
      unfolding c by simp
    moreover have "(ex_fs, RDFS_label, Literal ''False sharing'' None None)
        \<notin> set (all_facts_triplets reversing_runtime link_question two_topics)"
      unfolding d by (simp add: ex_fs_def ex_cla_def)
    ultimately show ?thesis by blast
  qed
  show ?thesis by (intro conjI iterates_all_example iterates_all_reversing a b c d e)
qed

text \<open>
  Claim C9, amended. Two runs on the same question and store whose runtimes visit
  exactly the elements of each set, value typed literals alike and yield the list of
  found entities in the same order collect the same set of facts; one returns a report
  exactly when the other does, and two returned reports have the same entity labels,
  the same path lines in the same order, and the same set of fact lines. The fact lines
  of a report stand in the order in which the runtime iterates the set of facts.
\<close>

theorem reports_agree_for_equal_entity_order:
  assumes "iterates_all rt" and "iterates_all rt'"
    and "typed_value_str rt = typed_value_str rt'" and "typed_truthy rt = typed_truthy rt'"
    and "identify_all_entities rt q g = identify_all_entities rt' q g"
  shows "set (all_facts_triplets rt q g) = set (all_facts_triplets rt' q g) \<and>
         ((\<exists>r. find_reasoning_path rt q g = Inr r) \<longleftrightarrow>
          (\<exists>r'. find_reasoning_path rt' q g = Inr r')) \<and>
         (\<forall>r r'. find_reasoning_path rt q g = Inr r \<and> find_reasoning_path rt' q g = Inr r' \<longrightarrow>
            entites_initiales r = entites_initiales r' \<and>
            chemin_trouve r = chemin_trouve r' \<and>
            set (faits_deduits r) = set (faits_deduits r')) \<and>
         (\<forall>r. find_reasoning_path rt q g = Inr r \<longrightarrow>
            map_result (format_fact rt g) (triple_set_order rt (all_facts_triplets rt q g))
              = Inr (faits_deduits r))"
proof -
  let ?E = "identify_all_entities rt q g"
  note ff = format_cong(1) [OF assms(3,4), of g]
  note fe = format_cong(2) [OF assms(3,4), of g]
  note gl = get_node_label_cong [OF assms(3,4), of g]
  have facts: "set (all_facts_triplets rt q g) = set (all_facts_triplets rt' q g)"
    unfolding all_facts_triplets_def Let_def assms(5) [symmetric]
    using assms(1,2) by (rule collect_facts_set_cong)
  have order: "set (triple_set_order rt (all_facts_triplets rt q g)) =
      set (triple_set_order rt' (all_facts_triplets rt' q g))"
    using assms(1,2) facts unfolding iterates_all_def by simp
  have lines: "path_lines rt g (fst (search_pairs g ?E)) =
      path_lines rt' g (fst (search_pairs g (identify_all_entities rt' q g)))"
    unfolding path_lines_def fe assms(5) ..
  have labels: "map_result (get_node_label rt g) ?E =
      map_result (get_node_label rt' g) (identify_all_entities rt' q g)"
    unfolding gl assms(5) ..
  have returns: "(\<exists>a. map_result (format_fact rt g)
        (triple_set_order rt (all_facts_triplets rt q g)) = Inr a) \<longleftrightarrow>
      (\<exists>a. map_result (format_fact rt' g)
        (triple_set_order rt' (all_facts_triplets rt' q g)) = Inr a)"
    unfolding map_result_returns_iff order ff ..
  have same: "(\<exists>r. find_reasoning_path rt q g = Inr r) \<longleftrightarrow>
      (\<exists>r'. find_reasoning_path rt' q g = Inr r')"
    unfolding report_returned_iff [OF assms(1)] report_returned_iff [OF assms(2)]
      returns lines labels ..
  have fields: "\<forall>r r'. find_reasoning_path rt q g = Inr r \<and>
      find_reasoning_path rt' q g = Inr r' \<longrightarrow>
      entites_initiales r = entites_initiales r' \<and>
      chemin_trouve r = chemin_trouve r' \<and>
      set (faits_deduits r) = set (faits_deduits r')"
  proof (intro allI impI)
    fix r r'
    assume both: "find_reasoning_path rt q g = Inr r \<and> find_reasoning_path rt' q g = Inr r'"
    note a = report_fields [OF assms(1) both [THEN conjunct1]]
    note b = report_fields [OF assms(2) both [THEN conjunct2]]
    from a b lines have "chemin_trouve r = chemin_trouve r'" by simp
    moreover from a b labels have "entites_initiales r = entites_initiales r'" by simp
    moreover have "set (faits_deduits r) = set (faits_deduits r')"
    proof (rule map_result_same_set)
      show "map_result (format_fact rt g)
          (triple_set_order rt (all_facts_triplets rt q g)) = Inr (faits_deduits r)"
        using a by (rule conjunct1)
      show "map_result (format_fact rt g)
          (triple_set_order rt' (all_facts_triplets rt' q g)) = Inr (faits_deduits r')"
        unfolding ff using b by (rule conjunct1)
      show "set (triple_set_order rt (all_facts_triplets rt q g)) =
          set (triple_set_order rt' (all_facts_triplets rt' q g))" by (rule order)
    qed
    ultimately show "entites_initiales r = entites_initiales r' \<and>
      chemin_trouve r = chemin_trouve r' \<and>
      set (faits_deduits r) = set (faits_deduits r')" by (intro conjI)
  qed
  have single: "\<forall>r. find_reasoning_path rt q g = Inr r \<longrightarrow>
      map_result (format_fact rt g) (triple_set_order rt (all_facts_triplets rt q g))
        = Inr (faits_deduits r)"
    using report_fields [OF assms(1)] by blast
  show ?thesis by (intro conjI facts same fields single)
qed


theorem reports_agree_for_equal_entity_order_witness:
  "identify_all_entities example_runtime link_question ontology = [ex_fs, ex_cla] \<and>
   identify_all_entities facts_reversed_runtime link_question ontology = [ex_fs, ex_cla] \<and>
   set (all_facts_triplets example_runtime link_question ontology) =
     set (all_facts_triplets facts_reversed_runtime link_question ontology) \<and>
   all_facts_triplets example_runtime link_question ontology =
     [(ex_fs, ex_resolu, ex_cla),
      (ex_fs, RDFS_label, Literal ''False sharing'' None None),
      (ex_fs, RDF_type, ex_class),
      (ex_cla, RDFS_label, Literal ''Cache line alignment'' None None),
      (ex_cla, RDF_type, ex_class)]"
proof -
  have e1: "identify_all_entities example_runtime link_question ontology = [ex_fs, ex_cla]"
    by code_simp
  have e2: "identify_all_entities facts_reversed_runtime link_question ontology = [ex_fs, ex_cla]"
    by code_simp
  have v: "typed_value_str example_runtime = typed_value_str facts_reversed_runtime"
    and t: "typed_truthy example_runtime = typed_truthy facts_reversed_runtime"
    by (simp_all add: facts_reversed_runtime_def)
  have f: "all_facts_triplets example_runtime link_question ontology =
     [(ex_fs, ex_resolu, ex_cla),
      (ex_fs, RDFS_label, Literal ''False sharing'' None None),
      (ex_fs, RDF_type, ex_class),
      (ex_cla, RDFS_label, Literal ''Cache line alignment'' None None),
      (ex_cla, RDF_type, ex_class)]"
    by code_simp
  have "set (all_facts_triplets example_runtime link_question ontology) =
     set (all_facts_triplets facts_reversed_runtime link_question ontology)"
    using reports_agree_for_equal_entity_order [OF iterates_all_example
        iterates_all_facts_reversed v t, of link_question ontology] e1 e2
    by simp
  with e1 e2 f show ?thesis by (intro conjI)
qed


end
